theory Spec2Isabelle
  imports Main "HOL-Library.Word" "HOL-Library.List_Lexorder" "HOL-Library.Sublist"
    "HOL-Library.AList"
begin

section \<open>The storage engine, as the backend uses it\<close>

text \<open>
  \<^verbatim>\<open>lib/storage/leveldb.go\<close> drives an ordered key-value engine (goleveldb) through the
  interface \<^verbatim>\<open>LevelDBCore\<close>: \<^verbatim>\<open>Has\<close>, \<^verbatim>\<open>Get\<close>, \<^verbatim>\<open>Put\<close>, \<^verbatim>\<open>Write\<close>, \<^verbatim>\<open>Delete\<close>,
  \<^verbatim>\<open>NewIterator\<close>. The engine is a library outside the repository; it is modelled by
  its contract. Go strings and byte slices are sequences of bytes; a \<^verbatim>\<open>nil\<close> slice is the
  empty list. Keys are ordered bytewise, lexicographically (the order of lists from
  \<open>List_Lexorder\<close> over the unsigned order of \<open>8 word\<close>).
\<close>

type_synonym bytes = "8 word list"

text \<open>A table holds one value for each key present (an association list updated in place).\<close>

type_synonym table = "(bytes \<times> bytes) list"

datatype leveldb_error = ErrNotFound | ErrTransactionDone

text \<open>
  A \<^verbatim>\<open>*leveldb.Transaction\<close> reads and writes its own view of the table until it is
  committed or discarded; after either it is closed and every operation on it reports
  \<open>ErrTransactionDone\<close>. The engine admits one transaction in flight and makes other
  writers wait for it; the waiting is outside this sequential model, which describes one
  caller. The root database stays open (\<^verbatim>\<open>Init\<close> and \<^verbatim>\<open>Close\<close> are not modelled).
\<close>

record transaction =
  tr_table :: table
  tr_closed :: bool

record world =
  db_table :: table
  trs :: "transaction list"

text \<open>
  The field \<^verbatim>\<open>core\<close> of a backend is either the database itself or a transaction object
  (the code tells them apart with a type assertion). Transaction objects live in the world
  and are named by their index. The field \<^verbatim>\<open>DB\<close> always points to the one database of
  the world and is left out.
\<close>

datatype LevelDBCore = DB | Transaction nat

datatype LevelDBBackend = LevelDBBackend (core: LevelDBCore)

definition tr_live :: "nat \<Rightarrow> world \<Rightarrow> bool" where
  "tr_live i w = (i < length (trs w) \<and> \<not> tr_closed (trs w ! i))"

definition table_of :: "LevelDBCore \<Rightarrow> world \<Rightarrow> leveldb_error + table" where
  "table_of c w =
     (case c of
        DB \<Rightarrow> Inr (db_table w)
      | Transaction i \<Rightarrow>
          if tr_live i w then Inr (tr_table (trs w ! i)) else Inl ErrTransactionDone)"

definition set_table :: "LevelDBCore \<Rightarrow> table \<Rightarrow> world \<Rightarrow> world" where
  "set_table c t w =
     (case c of
        DB \<Rightarrow> w\<lparr>db_table := t\<rparr>
      | Transaction i \<Rightarrow> w\<lparr>trs := (trs w)[i := (trs w ! i)\<lparr>tr_table := t\<rparr>]\<rparr>)"

text \<open>\<^verbatim>\<open>Has\<close> returns the pair \<^verbatim>\<open>(bool, error)\<close>; on an error the flag is false.\<close>

definition core_Has :: "LevelDBCore \<Rightarrow> bytes \<Rightarrow> world \<Rightarrow> bool \<times> leveldb_error option" where
  "core_Has c key w =
     (case table_of c w of
        Inl e \<Rightarrow> (False, Some e)
      | Inr t \<Rightarrow> (map_of t key \<noteq> None, None))"

definition core_Get :: "LevelDBCore \<Rightarrow> bytes \<Rightarrow> world \<Rightarrow> leveldb_error + bytes" where
  "core_Get c key w =
     (case table_of c w of
        Inl e \<Rightarrow> Inl e
      | Inr t \<Rightarrow> (case map_of t key of None \<Rightarrow> Inl ErrNotFound | Some v \<Rightarrow> Inr v))"

definition core_Put :: "LevelDBCore \<Rightarrow> bytes \<Rightarrow> bytes \<Rightarrow> world \<Rightarrow> leveldb_error option \<times> world" where
  "core_Put c key val w =
     (case table_of c w of
        Inl e \<Rightarrow> (Some e, w)
      | Inr t \<Rightarrow> (None, set_table c (AList.update key val t) w))"

definition core_Delete :: "LevelDBCore \<Rightarrow> bytes \<Rightarrow> world \<Rightarrow> leveldb_error option \<times> world" where
  "core_Delete c key w =
     (case table_of c w of
        Inl e \<Rightarrow> (Some e, w)
      | Inr t \<Rightarrow> (None, set_table c (AList.delete key t) w))"

text \<open>
  A \<^verbatim>\<open>leveldb.Batch\<close> is a list of records, in the order they were appended; \<^verbatim>\<open>Write\<close>
  applies all of them to the table in that order, or none (when the core is closed).
\<close>

datatype batch_record = BatchPut bytes bytes | BatchDelete bytes

type_synonym Batch = "batch_record list"

fun apply_record :: "table \<Rightarrow> batch_record \<Rightarrow> table" where
  "apply_record t (BatchPut key val) = AList.update key val t"
| "apply_record t (BatchDelete key) = AList.delete key t"

definition core_Write :: "LevelDBCore \<Rightarrow> Batch \<Rightarrow> world \<Rightarrow> leveldb_error option \<times> world" where
  "core_Write c batch w =
     (case table_of c w of
        Inl e \<Rightarrow> (Some e, w)
      | Inr t \<Rightarrow> (None, set_table c (foldl apply_record t batch) w))"

text \<open>\<^verbatim>\<open>(*leveldb.DB).OpenTransaction\<close>: a new transaction object whose view starts as the table.\<close>

definition DB_OpenTransaction :: "world \<Rightarrow> (leveldb_error + nat) \<times> world" where
  "DB_OpenTransaction w =
     (Inr (length (trs w)),
      w\<lparr>trs := trs w @ [\<lparr>tr_table = db_table w, tr_closed = False\<rparr>]\<rparr>)"

text \<open>\<^verbatim>\<open>(*leveldb.Transaction).Discard\<close> returns nothing; on a closed transaction it does nothing.\<close>

definition Transaction_Discard :: "nat \<Rightarrow> world \<Rightarrow> world" where
  "Transaction_Discard i w =
     (if tr_live i w then w\<lparr>trs := (trs w)[i := (trs w ! i)\<lparr>tr_closed := True\<rparr>]\<rparr> else w)"

text \<open>\<^verbatim>\<open>(*leveldb.Transaction).Commit\<close> makes the view the table and closes the transaction.\<close>

definition Transaction_Commit :: "nat \<Rightarrow> world \<Rightarrow> leveldb_error option \<times> world" where
  "Transaction_Commit i w =
     (if tr_live i w
      then (None, w\<lparr>db_table := tr_table (trs w ! i),
                    trs := (trs w)[i := (trs w ! i)\<lparr>tr_closed := True\<rparr>]\<rparr>)
      else (Some ErrTransactionDone, w))"

section \<open>Values, items and their encoding\<close>

text \<open>
  The errors of the backend are Go error values built from messages. Each constructor
  stands for the messages of one kind:
  \<^item> \<open>EmptyBatch\<close>: \<^verbatim>\<open>empty values\<close>;
  \<^item> \<open>AlreadyExists k\<close>: \<^verbatim>\<open>key, 'k' already exists\<close> and \<^verbatim>\<open>found existing key, 'k'\<close>;
  \<^item> \<open>NotFound k\<close>: \<^verbatim>\<open>key, 'k' does not exists\<close> and \<^verbatim>\<open>not found key, 'k'\<close>;
  \<^item> \<open>NoNestedTransaction\<close>: \<^verbatim>\<open>this is already *leveldb.Transaction\<close>;
  \<^item> \<open>NotATransaction\<close>: \<^verbatim>\<open>this is not *leveldb.Transaction\<close>;
  \<^item> \<open>EngineError e\<close>: an error of the engine, passed on;
  \<^item> \<open>EncodeError m\<close>, \<open>DecodeError m\<close>: an error of the encoder or the decoder, passed on.
\<close>

datatype error =
    EmptyBatch
  | AlreadyExists bytes
  | NotFound bytes
  | NoNestedTransaction
  | NotATransaction
  | EngineError leveldb_error
  | EncodeError string
  | DecodeError string

text \<open>
  Modelled from the spec: the declaration of \<^verbatim>\<open>Item\<close> is not in the source file, which
  reads only its field \<^verbatim>\<open>Key\<close>. The spec gives \<^verbatim>\<open>Item = {Key: string, Value: any}\<close>,
  the unit of a batch call.
\<close>

datatype 'v Item = Item (Key: bytes) (Value: 'v)

text \<open>
  What is handed to the generic encoder as \<^verbatim>\<open>interface{}\<close>: a plain value (\<^verbatim>\<open>New\<close>,
  \<^verbatim>\<open>Set\<close>) or a whole \<^verbatim>\<open>Item\<close> structure (\<^verbatim>\<open>News\<close>, \<^verbatim>\<open>Sets\<close>).
\<close>

datatype 'v any = AnyValue 'v | AnyItem "'v Item"

text \<open>
  The encoder \<^verbatim>\<open>sebakcommon.EncodeJSONValue\<close> and the interface
  \<^verbatim>\<open>sebakcommon.Serializable\<close> belong to a package that is not among the source files,
  and \<^verbatim>\<open>json.Unmarshal\<close> to a library; the backend takes them as given, and so does the
  model, as a parameter:
  \<^item> \<open>Serialize v\<close> is \<open>None\<close> when \<open>v\<close> does not implement \<^verbatim>\<open>Serializable\<close>, and
    otherwise the result of \<^verbatim>\<open>v.Serialize()\<close>;
  \<^item> \<open>EncodeJSONValue\<close> is the generic encoder;
  \<^item> \<open>Unmarshal\<close> is \<^verbatim>\<open>json.Unmarshal\<close> into a target shaped like the values.
  An \<open>Inl\<close> result is the error message.
\<close>

record 'v codec =
  Serialize :: "'v \<Rightarrow> (string + bytes) option"
  EncodeJSONValue :: "'v any \<Rightarrow> string + bytes"
  Unmarshal :: "bytes \<Rightarrow> string + 'v"

text \<open>
  Modelled from the spec: the generic structured encoder of \<^verbatim>\<open>sebakcommon\<close> is not among
  the source files. The spec names it JSON (4.1, 4.4), and a batch call hands it the whole
  \<^verbatim>\<open>Item\<close>, with its fields \<^verbatim>\<open>Key\<close> and \<^verbatim>\<open>Value\<close>. JSON renders a structure as an object
  of its fields in their order: \<^verbatim>\<open>{"Key":\<close> the key as a JSON string \<^verbatim>\<open>,"Value":\<close> the
  encoded value \<^verbatim>\<open>}\<close>. \<open>Item_object\<close> is that object as bytes. A JSON codec is a codec
  whose generic encoder renders items so; how it encodes plain values (\<open>encv\<close>), how it
  writes a key as a JSON string (\<open>enck\<close>), which values have their own \<^verbatim>\<open>Serialize\<close>
  (\<open>ser\<close>) and the decoder (\<open>dec\<close>) stay parameters.
\<close>

definition Item_object :: "bytes \<Rightarrow> bytes \<Rightarrow> bytes" where
  "Item_object key_json value_json =
     [0x7b, 0x22, 0x4b, 0x65, 0x79, 0x22, 0x3a] @ key_json
     @ [0x2c, 0x22, 0x56, 0x61, 0x6c, 0x75, 0x65, 0x22, 0x3a] @ value_json @ [0x7d]"

fun json_encode :: "('v \<Rightarrow> string + bytes) \<Rightarrow> (bytes \<Rightarrow> bytes) \<Rightarrow> 'v any \<Rightarrow> string + bytes" where
  "json_encode encv enck (AnyValue v) = encv v"
| "json_encode encv enck (AnyItem i) =
     (case encv (Value i) of
        Inl m \<Rightarrow> Inl m
      | Inr b \<Rightarrow> Inr (Item_object (enck (Key i)) b))"

definition json_codec ::
  "('v \<Rightarrow> (string + bytes) option) \<Rightarrow> ('v \<Rightarrow> string + bytes) \<Rightarrow> (bytes \<Rightarrow> bytes)
   \<Rightarrow> (bytes \<Rightarrow> string + 'v) \<Rightarrow> 'v codec" where
  "json_codec ser encv enck dec =
     \<lparr>Serialize = ser, EncodeJSONValue = json_encode encv enck, Unmarshal = dec\<rparr>"

section \<open>The backend\<close>

text \<open>
  Every method takes the backend \<open>st\<close> and the world, and returns what the Go method
  returns, with the new world when it can write. A returned \<^verbatim>\<open>error\<close> is an
  \<open>error option\<close> (\<open>None\<close> for \<^verbatim>\<open>nil\<close>).
\<close>

definition OpenTransaction :: "LevelDBBackend \<Rightarrow> world \<Rightarrow> (error + LevelDBBackend) \<times> world" where
  "OpenTransaction st w =
     (case core st of
        Transaction _ \<Rightarrow> (Inl NoNestedTransaction, w)
      | DB \<Rightarrow>
          (case DB_OpenTransaction w of
             (Inl err, w') \<Rightarrow> (Inl (EngineError err), w')
           | (Inr transaction, w') \<Rightarrow> (Inr (LevelDBBackend (Transaction transaction)), w')))"

definition Discard :: "LevelDBBackend \<Rightarrow> world \<Rightarrow> error option \<times> world" where
  "Discard st w =
     (case core st of
        DB \<Rightarrow> (Some NotATransaction, w)
      | Transaction ts \<Rightarrow> (None, Transaction_Discard ts w))"

definition Commit :: "LevelDBBackend \<Rightarrow> world \<Rightarrow> error option \<times> world" where
  "Commit st w =
     (case core st of
        DB \<Rightarrow> (Some NotATransaction, w)
      | Transaction ts \<Rightarrow>
          (case Transaction_Commit ts w of (err, w') \<Rightarrow> (map_option EngineError err, w')))"

definition makeKey :: "bytes \<Rightarrow> bytes" where
  "makeKey key = key"

definition Has :: "LevelDBBackend \<Rightarrow> bytes \<Rightarrow> world \<Rightarrow> bool \<times> leveldb_error option" where
  "Has st k w = core_Has (core st) (makeKey k) w"

definition GetRaw :: "LevelDBBackend \<Rightarrow> bytes \<Rightarrow> world \<Rightarrow> error + bytes" where
  "GetRaw st k w =
     (case Has st k w of
        (exists, err) \<Rightarrow>
          if \<not> exists \<or> err \<noteq> None
          then (if \<not> exists then Inl (NotFound k)
                else (case err of Some e \<Rightarrow> Inl (EngineError e) | None \<Rightarrow> Inr []))
          else (case core_Get (core st) (makeKey k) w of
                  Inl e \<Rightarrow> Inl (EngineError e)
                | Inr b \<Rightarrow> Inr b))"

definition Get :: "LevelDBBackend \<Rightarrow> 'v codec \<Rightarrow> bytes \<Rightarrow> world \<Rightarrow> error + 'v" where
  "Get st cd k w =
     (case GetRaw st k w of
        Inl err \<Rightarrow> Inl err
      | Inr b \<Rightarrow>
          (case Unmarshal cd b of
             Inl m \<Rightarrow> Inl (DecodeError m)
           | Inr i \<Rightarrow> Inr i))"

text \<open>
  The first step of \<^verbatim>\<open>New\<close>: the value's own \<^verbatim>\<open>Serialize\<close> when it has one, the generic
  encoder otherwise.
\<close>

definition New_encode :: "'v codec \<Rightarrow> 'v \<Rightarrow> string + bytes" where
  "New_encode cd v =
     (case Serialize cd v of
        Some serialized \<Rightarrow> serialized
      | None \<Rightarrow> EncodeJSONValue cd (AnyValue v))"

definition New :: "LevelDBBackend \<Rightarrow> 'v codec \<Rightarrow> bytes \<Rightarrow> 'v \<Rightarrow> world \<Rightarrow> error option \<times> world" where
  "New st cd k v w =
     (case New_encode cd v of
        Inl m \<Rightarrow> (Some (EncodeError m), w)
      | Inr encoded \<Rightarrow>
          (case Has st k w of
             (exists, err) \<Rightarrow>
               if exists \<or> err \<noteq> None
               then (if exists then (Some (AlreadyExists k), w)
                     else (map_option EngineError err, w))
               else (case core_Put (core st) (makeKey k) encoded w of
                       (err', w') \<Rightarrow> (map_option EngineError err', w'))))"

definition Set :: "LevelDBBackend \<Rightarrow> 'v codec \<Rightarrow> bytes \<Rightarrow> 'v \<Rightarrow> world \<Rightarrow> error option \<times> world" where
  "Set st cd k v w =
     (case EncodeJSONValue cd (AnyValue v) of
        Inl m \<Rightarrow> (Some (EncodeError m), w)
      | Inr encoded \<Rightarrow>
          (case Has st k w of
             (exists, err) \<Rightarrow>
               if \<not> exists \<or> err \<noteq> None
               then (if \<not> exists then (Some (NotFound k), w)
                     else (map_option EngineError err, w))
               else (case core_Put (core st) (makeKey k) encoded w of
                       (err', w') \<Rightarrow> (map_option EngineError err', w'))))"

definition Remove :: "LevelDBBackend \<Rightarrow> bytes \<Rightarrow> world \<Rightarrow> error option \<times> world" where
  "Remove st k w =
     (case Has st k w of
        (exists, err) \<Rightarrow>
          if \<not> exists \<or> err \<noteq> None
          then (if \<not> exists then (Some (NotFound k), w)
                else (map_option EngineError err, w))
          else (case core_Delete (core st) (makeKey k) w of
                  (err', w') \<Rightarrow> (map_option EngineError err', w')))"

text \<open>
  The first loop of \<^verbatim>\<open>News\<close>: the error it returns with, or \<open>None\<close> when it runs to
  its end.
\<close>

fun News_check :: "LevelDBBackend \<Rightarrow> 'v Item list \<Rightarrow> world \<Rightarrow> error option" where
  "News_check st [] w = None"
| "News_check st (v # vs) w =
     (case Has st (Key v) w of
        (exists, err) \<Rightarrow>
          if exists \<or> err \<noteq> None
          then (if exists then Some (AlreadyExists (Key v)) else map_option EngineError err)
          else News_check st vs w)"

text \<open>The first loop of \<^verbatim>\<open>Sets\<close>.\<close>

fun Sets_check :: "LevelDBBackend \<Rightarrow> 'v Item list \<Rightarrow> world \<Rightarrow> error option" where
  "Sets_check st [] w = None"
| "Sets_check st (v # vs) w =
     (case Has st (Key v) w of
        (exists, err) \<Rightarrow>
          if \<not> exists \<or> err \<noteq> None
          then (if \<not> exists then Some (NotFound (Key v)) else map_option EngineError err)
          else Sets_check st vs w)"

text \<open>
  The second loop, the same in both: every item is encoded whole and appended to the
  batch; the first encoding error ends the call.
\<close>

fun fill_batch :: "'v codec \<Rightarrow> 'v Item list \<Rightarrow> Batch \<Rightarrow> string + Batch" where
  "fill_batch cd [] batch = Inr batch"
| "fill_batch cd (v # vs) batch =
     (case EncodeJSONValue cd (AnyItem v) of
        Inl m \<Rightarrow> Inl m
      | Inr encoded \<Rightarrow> fill_batch cd vs (batch @ [BatchPut (makeKey (Key v)) encoded]))"

definition News :: "LevelDBBackend \<Rightarrow> 'v codec \<Rightarrow> 'v Item list \<Rightarrow> world \<Rightarrow> error option \<times> world" where
  "News st cd vs w =
     (if length vs < 1 then (Some EmptyBatch, w)
      else (case News_check st vs w of
              Some err \<Rightarrow> (Some err, w)
            | None \<Rightarrow>
                (case fill_batch cd vs [] of
                   Inl m \<Rightarrow> (Some (EncodeError m), w)
                 | Inr batch \<Rightarrow>
                     (case core_Write (core st) batch w of
                        (err, w') \<Rightarrow> (map_option EngineError err, w')))))"

definition Sets :: "LevelDBBackend \<Rightarrow> 'v codec \<Rightarrow> 'v Item list \<Rightarrow> world \<Rightarrow> error option \<times> world" where
  "Sets st cd vs w =
     (if length vs < 1 then (Some EmptyBatch, w)
      else (case Sets_check st vs w of
              Some err \<Rightarrow> (Some err, w)
            | None \<Rightarrow>
                (case fill_batch cd vs [] of
                   Inl m \<Rightarrow> (Some (EncodeError m), w)
                 | Inr batch \<Rightarrow>
                     (case core_Write (core st) batch w of
                        (err, w') \<Rightarrow> (map_option EngineError err, w')))))"

section \<open>Iteration\<close>

text \<open>
  \<^verbatim>\<open>util.Range\<close> has a first key \<^verbatim>\<open>Start\<close> and a bound \<^verbatim>\<open>Limit\<close> that is not in the
  range; a \<^verbatim>\<open>nil\<close> limit is no bound. \<^verbatim>\<open>util.BytesPrefix\<close> walks the prefix from its
  last byte down to the first byte below \<^verbatim>\<open>0xff\<close>; the limit is the prefix cut after
  that byte, with the byte incremented.
\<close>

datatype Range = Range (Start: bytes) (Limit: "bytes option")

fun prefix_limit :: "bytes \<Rightarrow> nat \<Rightarrow> bytes option" where
  "prefix_limit p 0 = None"
| "prefix_limit p (Suc i) =
     (if p ! i < 0xff then Some (take i p @ [p ! i + 1]) else prefix_limit p i)"

definition BytesPrefix :: "bytes \<Rightarrow> Range" where
  "BytesPrefix p = Range p (prefix_limit p (length p))"

text \<open>The keys an iterator over a range visits; a \<^verbatim>\<open>nil\<close> range has all keys.\<close>

definition in_range :: "Range option \<Rightarrow> bytes \<Rightarrow> bool" where
  "in_range dbRange key =
     (case dbRange of
        None \<Rightarrow> True
      | Some r \<Rightarrow>
          Start r \<le> key \<and> (case Limit r of None \<Rightarrow> True | Some l \<Rightarrow> key < l))"

text \<open>
  An \<^verbatim>\<open>iterator.Iterator\<close> walks the records of its range in ascending key order. It is
  before the first record (\<open>SOI\<close>), at a record, after the last one (\<open>EOI\<close>), or
  released. \<^verbatim>\<open>Last\<close>, \<^verbatim>\<open>Next\<close> and \<^verbatim>\<open>Prev\<close> move it and say whether it is at a record;
  \<^verbatim>\<open>Key\<close> and \<^verbatim>\<open>Value\<close> read the record it is at, and are \<^verbatim>\<open>nil\<close> elsewhere. A
  released iterator stays released and no longer moves.
\<close>

datatype position = Released | SOI | EOI | At nat

record Iterator =
  records :: table
  pos :: position

definition Iterator_Last :: "Iterator \<Rightarrow> bool \<times> Iterator" where
  "Iterator_Last it =
     (case pos it of
        Released \<Rightarrow> (False, it)
      | _ \<Rightarrow>
          if records it = [] then (False, it\<lparr>pos := SOI\<rparr>)
          else (True, it\<lparr>pos := At (length (records it) - 1)\<rparr>))"

definition Iterator_Next :: "Iterator \<Rightarrow> bool \<times> Iterator" where
  "Iterator_Next it =
     (case pos it of
        Released \<Rightarrow> (False, it)
      | EOI \<Rightarrow> (False, it)
      | SOI \<Rightarrow>
          if records it = [] then (False, it\<lparr>pos := EOI\<rparr>)
          else (True, it\<lparr>pos := At 0\<rparr>)
      | At i \<Rightarrow>
          if Suc i < length (records it) then (True, it\<lparr>pos := At (Suc i)\<rparr>)
          else (False, it\<lparr>pos := EOI\<rparr>))"

definition Iterator_Prev :: "Iterator \<Rightarrow> bool \<times> Iterator" where
  "Iterator_Prev it =
     (case pos it of
        Released \<Rightarrow> (False, it)
      | SOI \<Rightarrow> (False, it)
      | EOI \<Rightarrow> Iterator_Last it
      | At i \<Rightarrow>
          if 0 < i then (True, it\<lparr>pos := At (i - 1)\<rparr>)
          else (False, it\<lparr>pos := SOI\<rparr>))"

definition Iterator_Key :: "Iterator \<Rightarrow> bytes" where
  "Iterator_Key it =
     (case pos it of
        At i \<Rightarrow> if i < length (records it) then fst (records it ! i) else []
      | _ \<Rightarrow> [])"

definition Iterator_Value :: "Iterator \<Rightarrow> bytes" where
  "Iterator_Value it =
     (case pos it of
        At i \<Rightarrow> if i < length (records it) then snd (records it ! i) else []
      | _ \<Rightarrow> [])"

definition Iterator_Release :: "Iterator \<Rightarrow> Iterator" where
  "Iterator_Release it = it\<lparr>pos := Released\<rparr>"

text \<open>
  \<^verbatim>\<open>NewIterator\<close> takes the records of the core's table that lie in the range, in
  ascending key order, and starts before the first. On a closed transaction the iterator
  is empty.
\<close>

definition core_NewIterator :: "LevelDBCore \<Rightarrow> Range option \<Rightarrow> world \<Rightarrow> Iterator" where
  "core_NewIterator c dbRange w =
     \<lparr>records =
        (case table_of c w of
           Inl e \<Rightarrow> []
         | Inr t \<Rightarrow> sort_key fst (filter (\<lambda>r. in_range dbRange (fst r)) t)),
      pos = SOI\<rparr>"

text \<open>
  Modelled from the spec: the declaration of \<^verbatim>\<open>IterItem\<close> is not in the source file. The
  spec gives \<^verbatim>\<open>IterItem = {Sequence: integer, Key: bytes, Value: bytes}\<close>; the source
  builds it as \<^verbatim>\<open>IterItem{N: n, Key: iter.Key(), Value: iter.Value()}\<close> with \<^verbatim>\<open>n\<close> an
  \<^verbatim>\<open>int64\<close>, so the sequence field is \<open>N\<close>, a 64-bit word read as signed. (The other
  two fields are named \<open>IterKey\<close> and \<open>IterValue\<close> here, apart from those of \<open>Item\<close>.)
\<close>

record IterItem =
  N :: "64 word"
  IterKey :: bytes
  IterValue :: bytes

definition zero_IterItem :: IterItem where
  "zero_IterItem = \<lparr>N = 0, IterKey = [], IterValue = []\<rparr>"

text \<open>
  \<^verbatim>\<open>GetIterator\<close> returns two closures over shared variables. The model keeps those
  variables: \<open>Pulling iter funcNext hasUnsent n\<close> is the pair returned at the end of the
  function, \<open>Finished iter\<close> the pair of constant closures returned when \<^verbatim>\<open>iter.Last()\<close>
  fails; \<open>pfx\<close> is the argument \<^verbatim>\<open>prefix\<close>. \<open>next_fn\<close> and \<open>release_fn\<close> are one call of the first and of the second closure.
\<close>

datatype step = IterPrev | IterNext

fun funcNext :: "step \<Rightarrow> Iterator \<Rightarrow> bool \<times> Iterator" where
  "funcNext IterPrev it = Iterator_Prev it"
| "funcNext IterNext it = Iterator_Next it"

datatype IterSession = Finished Iterator | Pulling Iterator step bool "64 word"

definition GetIterator :: "LevelDBBackend \<Rightarrow> bytes \<Rightarrow> bool \<Rightarrow> world \<Rightarrow> IterSession" where
  "GetIterator st pfx reverse w =
     (let dbRange = (if length pfx > 0 then Some (BytesPrefix (makeKey pfx)) else None);
          iter = core_NewIterator (core st) dbRange w
      in if reverse
         then (case Iterator_Last iter of
                 (ok, iter') \<Rightarrow>
                   if \<not> ok then Finished (Iterator_Release iter')
                   else Pulling iter' IterPrev True 0)
         else Pulling iter IterNext False 0)"

fun next_fn :: "IterSession \<Rightarrow> (IterItem \<times> bool) \<times> IterSession" where
  "next_fn (Finished iter) = ((zero_IterItem, False), Finished iter)"
| "next_fn (Pulling iter f hasUnsent n) =
     (if hasUnsent
      then ((\<lparr>N = n, IterKey = Iterator_Key iter, IterValue = Iterator_Value iter\<rparr>, True),
            Pulling iter f False n)
      else (case funcNext f iter of
              (ok, iter') \<Rightarrow>
                if \<not> ok then ((zero_IterItem, False), Pulling (Iterator_Release iter') f False n)
                else ((\<lparr>N = n + 1, IterKey = Iterator_Key iter', IterValue = Iterator_Value iter'\<rparr>,
                       True),
                      Pulling iter' f False (n + 1))))"

fun release_fn :: "IterSession \<Rightarrow> IterSession" where
  "release_fn (Finished iter) = Finished iter"
| "release_fn (Pulling iter f hasUnsent n) = Pulling (Iterator_Release iter) f hasUnsent n"

fun cursor :: "IterSession \<Rightarrow> Iterator" where
  "cursor (Finished iter) = iter"
| "cursor (Pulling iter f hasUnsent n) = iter"

text \<open>
  A caller that iterates to the end calls the first closure until it reports no more
  records; \<open>drain\<close> is the list of the items it receives. The loop ends because every call
  that reports a record leaves fewer moves to the cursor (\<open>remaining\<close>).
\<close>

fun remaining :: "IterSession \<Rightarrow> nat" where
  "remaining (Finished iter) = 0"
| "remaining (Pulling iter f hasUnsent n) =
     (if hasUnsent then 1 else 0) +
     (case (f, pos iter) of
        (_, Released) \<Rightarrow> 0
      | (IterNext, SOI) \<Rightarrow> Suc (length (records iter))
      | (IterNext, EOI) \<Rightarrow> 0
      | (IterNext, At i) \<Rightarrow> length (records iter) - i
      | (IterPrev, SOI) \<Rightarrow> 0
      | (IterPrev, EOI) \<Rightarrow> Suc (length (records iter))
      | (IterPrev, At i) \<Rightarrow> Suc i)"

function drain :: "IterSession \<Rightarrow> IterItem list" where
  "drain s =
     (case next_fn s of
        ((item, hasMore), s') \<Rightarrow> if hasMore then item # drain s' else [])"
  by pat_completeness auto
termination
proof (relation "measure remaining")
  show "wf (measure remaining)" by simp
next
  fix s :: IterSession and x s' item hasMore
  assume "(x, s') = next_fn s" and "(item, hasMore) = x" and hasMore
  then have "next_fn s = ((item, True), s')" by simp
  then have "remaining s' < remaining s"
    by (cases s)
       (auto simp: Iterator_Next_def Iterator_Prev_def Iterator_Last_def
             split: if_splits step.splits position.splits prod.splits)
  then show "(s', s) \<in> measure remaining" by simp
qed

declare drain.simps [simp del]

text \<open>The session after a number of calls of the first closure.\<close>

fun after_calls :: "nat \<Rightarrow> IterSession \<Rightarrow> IterSession" where
  "after_calls 0 s = s"
| "after_calls (Suc j) s = after_calls j (snd (next_fn s))"

section \<open>Notions for the statements\<close>

text \<open>
  What an iteration is expected to deliver, to state the theorems: the records whose key
  has a given prefix, in ascending key order, and a list of records as items numbered
  from a given sequence value.
\<close>

definition with_prefix :: "bytes \<Rightarrow> table \<Rightarrow> table" where
  "with_prefix p t = sort_key fst (filter (\<lambda>r. prefix p (fst r)) t)"

fun numbered :: "64 word \<Rightarrow> table \<Rightarrow> IterItem list" where
  "numbered n [] = []"
| "numbered n (r # rs) = \<lparr>N = n, IterKey = fst r, IterValue = snd r\<rparr> # numbered (n + 1) rs"

text \<open>
  A session is spent when its cursor is released and no record waits to be sent. The pair
  of constant closures is handed out only with a released cursor (\<open>proper\<close>).
\<close>

fun spent :: "IterSession \<Rightarrow> bool" where
  "spent (Finished iter) = (pos iter = Released)"
| "spent (Pulling iter f hasUnsent n) = (pos iter = Released \<and> \<not> hasUnsent)"

fun proper :: "IterSession \<Rightarrow> bool" where
  "proper (Finished iter) = (pos iter = Released)"
| "proper (Pulling iter f hasUnsent n) = True"

text \<open>
  A caller that inserts key-value pairs one after another with \<^verbatim>\<open>New\<close> and stops at the
  first error.
\<close>

fun New_all ::
  "LevelDBBackend \<Rightarrow> 'v codec \<Rightarrow> (bytes \<times> 'v) list \<Rightarrow> world \<Rightarrow> error option \<times> world" where
  "New_all st cd [] w = (None, w)"
| "New_all st cd (kv # kvs) w =
     (case New st cd (fst kv) (snd kv) w of
        (Some err, w') \<Rightarrow> (Some err, w')
      | (None, w') \<Rightarrow> New_all st cd kvs w')"

section \<open>A sample encoding, for the examples\<close>

text \<open>
  The examples below need values and an encoding to run on. The sample has a text value, a
  channel (which the generic encoder refuses, as \<^verbatim>\<open>json.Marshal\<close> refuses a Go channel)
  and a value with its own \<^verbatim>\<open>Serialize\<close>. A text is encoded between quotes, an item as
  its key, a colon and the encoded value between braces. This stands in for the encoder
  of \<^verbatim>\<open>sebakcommon\<close> in the examples only; the theorems hold for every \<open>codec\<close>.
\<close>

datatype sample = Text bytes | Chan | Custom bytes

fun sample_Serialize :: "sample \<Rightarrow> (string + bytes) option" where
  "sample_Serialize (Custom b) = Some (Inr b)"
| "sample_Serialize v = None"

fun sample_json :: "sample \<Rightarrow> string + bytes" where
  "sample_json (Text b) = Inr (0x22 # b @ [0x22])"
| "sample_json Chan = Inl ''json: unsupported type: chan int''"
| "sample_json (Custom b) = Inr [0x7b, 0x7d]"

fun sample_EncodeJSONValue :: "sample any \<Rightarrow> string + bytes" where
  "sample_EncodeJSONValue (AnyValue v) = sample_json v"
| "sample_EncodeJSONValue (AnyItem i) =
     (case sample_json (Value i) of
        Inl m \<Rightarrow> Inl m
      | Inr b \<Rightarrow> Inr (0x7b # Key i @ 0x3a # b @ [0x7d]))"

fun sample_Unmarshal :: "bytes \<Rightarrow> string + sample" where
  "sample_Unmarshal [] = Inl ''unexpected end of JSON input''"
| "sample_Unmarshal (c # r) =
     (if c = 0x22 \<and> r \<noteq> [] \<and> last r = 0x22 then Inr (Text (butlast r))
      else Inl ''json: cannot unmarshal'')"

definition sample_codec :: "sample codec" where
  "sample_codec =
     \<lparr>Serialize = sample_Serialize,
      EncodeJSONValue = sample_EncodeJSONValue,
      Unmarshal = sample_Unmarshal\<rparr>"

text \<open>
  Samples for a JSON codec. A key without special characters is written between quotes.
  \<open>EmptyStruct\<close> is a Go structure without fields: JSON encodes it as \<^verbatim>\<open>{}\<close>, and
  decoding into a target of that shape accepts every object, since fields of the object
  that the target lacks are ignored (the sample checks the braces only).
\<close>

fun json_quote :: "bytes \<Rightarrow> bytes" where
  "json_quote key = 0x22 # key @ [0x22]"

definition sample_json_codec :: "sample codec" where
  "sample_json_codec = json_codec sample_Serialize sample_json json_quote sample_Unmarshal"

datatype empty_struct = EmptyStruct

fun struct_Serialize :: "empty_struct \<Rightarrow> (string + bytes) option" where
  "struct_Serialize v = None"

fun struct_json :: "empty_struct \<Rightarrow> string + bytes" where
  "struct_json EmptyStruct = Inr [0x7b, 0x7d]"

fun struct_Unmarshal :: "bytes \<Rightarrow> string + empty_struct" where
  "struct_Unmarshal [] = Inl ''unexpected end of JSON input''"
| "struct_Unmarshal (c # r) =
     (if c = 0x7b \<and> r \<noteq> [] \<and> last r = 0x7d then Inr EmptyStruct
      else Inl ''json: cannot unmarshal'')"

definition struct_codec :: "empty_struct codec" where
  "struct_codec = json_codec struct_Serialize struct_json json_quote struct_Unmarshal"

text \<open>
  The keys \<^verbatim>\<open>user:2\<close>, \<^verbatim>\<open>other:1\<close> and \<^verbatim>\<open>user:1\<close> with sample values, and the prefix
  \<^verbatim>\<open>user:\<close>, as bytes.
\<close>

definition users_example :: "(bytes \<times> sample) list" where
  "users_example =
     [([0x75, 0x73, 0x65, 0x72, 0x3a, 0x32], Text [1]),
      ([0x6f, 0x74, 0x68, 0x65, 0x72, 0x3a, 0x31], Text [2]),
      ([0x75, 0x73, 0x65, 0x72, 0x3a, 0x31], Text [3])]"

definition user_prefix :: bytes where
  "user_prefix = [0x75, 0x73, 0x65, 0x72, 0x3a]"

section \<open>Facts about the engine\<close>

lemma table_of_set_table:
  "table_of c w = Inr t \<Longrightarrow> table_of c (set_table c t' w) = Inr t'"
  by (cases c) (auto simp: table_of_def set_table_def tr_live_def split: if_splits)

lemma Has_table:
  "table_of (core st) w = Inr t \<Longrightarrow> Has st k w = (map_of t k \<noteq> None, None)"
  by (simp add: Has_def core_Has_def makeKey_def)

lemma GetRaw_table:
  "table_of (core st) w = Inr t \<Longrightarrow>
   GetRaw st k w = (case map_of t k of None \<Rightarrow> Inl (NotFound k) | Some b \<Rightarrow> Inr b)"
  by (auto simp: GetRaw_def Has_table core_Get_def makeKey_def split: option.splits)

lemma core_Put_table:
  "table_of c w = Inr t \<Longrightarrow>
   core_Put c key val w = (None, set_table c (AList.update key val t) w)"
  by (simp add: core_Put_def)

lemma core_Write_table:
  "table_of c w = Inr t \<Longrightarrow>
   core_Write c batch w = (None, set_table c (foldl apply_record t batch) w)"
  by (simp add: core_Write_def)

lemma tr_live_after_Discard: "\<not> tr_live i (Transaction_Discard i w)"
  by (auto simp: Transaction_Discard_def tr_live_def)

lemma tr_live_after_Commit: "\<not> tr_live i (snd (Transaction_Commit i w))"
  by (auto simp: Transaction_Commit_def tr_live_def)

section \<open>Facts about the two loops of a batch call\<close>

lemma News_check_table:
  "table_of (core st) w = Inr t \<Longrightarrow>
   News_check st vs w =
     (case find (\<lambda>v. map_of t (Key v) \<noteq> None) vs of
        None \<Rightarrow> None | Some v \<Rightarrow> Some (AlreadyExists (Key v)))"
  by (induction vs) (auto simp: Has_table)

lemma Sets_check_table:
  "table_of (core st) w = Inr t \<Longrightarrow>
   Sets_check st vs w =
     (case find (\<lambda>v. map_of t (Key v) = None) vs of
        None \<Rightarrow> None | Some v \<Rightarrow> Some (NotFound (Key v)))"
  by (induction vs) (auto simp: Has_table)

lemma fill_batch_Inr:
  "map (\<lambda>v. EncodeJSONValue cd (AnyItem v)) vs = map Inr bs \<Longrightarrow>
   fill_batch cd vs batch = Inr (batch @ map2 BatchPut (map Key vs) bs)"
proof (induction vs arbitrary: bs batch)
  case Nil
  then show ?case by simp
next
  case (Cons v vs)
  then obtain b bs' where "bs = b # bs'" by (cases bs) auto
  with Cons show ?case by (simp add: makeKey_def)
qed

lemma fill_batch_Inl:
  "\<exists>v \<in> set vs. isl (EncodeJSONValue cd (AnyItem v)) \<Longrightarrow> isl (fill_batch cd vs batch)"
  by (induction vs arbitrary: batch) (auto split: sum.splits)

lemma map_of_apply_puts:
  "length ks = length bs \<Longrightarrow>
   map_of (foldl apply_record t (map2 BatchPut ks bs)) = map_of t ++ map_of (rev (zip ks bs))"
proof (induction ks bs arbitrary: t rule: list_induct2)
  case Nil
  then show ?case by simp
next
  case (Cons k ks b bs)
  have "map_of (foldl apply_record t (map2 BatchPut (k # ks) (b # bs)))
        = map_of (AList.update k b t) ++ map_of (rev (zip ks bs))"
    using Cons.IH by simp
  also have "\<dots> = (map_of t ++ [k \<mapsto> b]) ++ map_of (rev (zip ks bs))"
    by (simp add: update_conv')
  also have "\<dots> = map_of t ++ map_of (rev (zip (k # ks) (b # bs)))"
    by simp
  finally show ?case .
qed

lemma map_of_puts_distinct:
  assumes "length ks = length bs" and "distinct ks" and "i < length ks"
  shows "map_of (foldl apply_record t (map2 BatchPut ks bs)) (ks ! i) = Some (bs ! i)"
proof -
  have "distinct (map fst (rev (zip ks bs)))"
    using assms(1,2) by (simp add: rev_map [symmetric] )
  moreover have "(ks ! i, bs ! i) \<in> set (rev (zip ks bs))"
    using assms(1,3) by (auto simp: set_zip)
  ultimately have "map_of (rev (zip ks bs)) (ks ! i) = Some (bs ! i)"
    by (rule map_of_is_SomeI)
  then show ?thesis
    using assms(1) by (simp add: map_of_apply_puts)
qed

lemma find_SomeD: "find P xs = Some x \<Longrightarrow> x \<in> set xs \<and> P x"
  by (induction xs) (auto split: if_splits)

lemma News_result:
  assumes "table_of (core st) w = Inr t" and "vs \<noteq> []"
  shows "News st cd vs w =
     (case find (\<lambda>v. map_of t (Key v) \<noteq> None) vs of
        Some v \<Rightarrow> (Some (AlreadyExists (Key v)), w)
      | None \<Rightarrow>
          (case fill_batch cd vs [] of
             Inl m \<Rightarrow> (Some (EncodeError m), w)
           | Inr batch \<Rightarrow> (None, set_table (core st) (foldl apply_record t batch) w)))"
proof -
  have "\<not> length vs < 1"
    using assms(2) by (cases vs) simp_all
  then show ?thesis
    by (simp add: News_def News_check_table [OF assms(1)] core_Write_table [OF assms(1)]
          split: option.splits sum.splits)
qed

lemma Sets_result:
  assumes "table_of (core st) w = Inr t" and "vs \<noteq> []"
  shows "Sets st cd vs w =
     (case find (\<lambda>v. map_of t (Key v) = None) vs of
        Some v \<Rightarrow> (Some (NotFound (Key v)), w)
      | None \<Rightarrow>
          (case fill_batch cd vs [] of
             Inl m \<Rightarrow> (Some (EncodeError m), w)
           | Inr batch \<Rightarrow> (None, set_table (core st) (foldl apply_record t batch) w)))"
proof -
  have "\<not> length vs < 1"
    using assms(2) by (cases vs) simp_all
  then show ?thesis
    by (simp add: Sets_def Sets_check_table [OF assms(1)] core_Write_table [OF assms(1)]
          split: option.splits sum.splits)
qed

lemma GetRaw_after_batch:
  assumes "table_of (core st) w = Inr t"
    and "distinct (map Key vs)"
    and "length bs = length vs"
    and "i < length vs"
  shows "GetRaw st (Key (vs ! i))
           (set_table (core st) (foldl apply_record t (map2 BatchPut (map Key vs) bs)) w)
         = Inr (bs ! i)"
proof -
  have "map_of (foldl apply_record t (map2 BatchPut (map Key vs) bs)) (map Key vs ! i)
        = Some (bs ! i)"
    using assms(2-4) by (intro map_of_puts_distinct) simp_all
  then show ?thesis
    using table_of_set_table [OF assms(1)] assms(4) by (simp add: GetRaw_table)
qed

lemma Item_object_not_value: "Item_object key_json value_json \<noteq> value_json"
proof
  assume "Item_object key_json value_json = value_json"
  then have "length (Item_object key_json value_json) = length value_json"
    by simp
  then show False
    by (simp add: Item_object_def)
qed

lemma json_items_encoded:
  assumes "map (\<lambda>x. encv (Value x)) vs = map Inr bvs"
  shows "map (\<lambda>x. EncodeJSONValue (json_codec ser encv enck dec) (AnyItem x)) vs
         = map Inr (map2 (\<lambda>x b. Item_object (enck (Key x)) b) vs bvs)"
  using assms
proof (induction vs arbitrary: bvs)
  case Nil
  then show ?case by simp
next
  case (Cons x vs)
  then obtain b bvs' where "bvs = b # bvs'" by (cases bvs) auto
  with Cons show ?case by (simp add: json_codec_def)
qed

section \<open>The range of a prefix\<close>

lemma byte_bound: "unat (c :: 8 word) < 256"
  using unsigned_less [of c] by simp

lemma byte_max: "\<not> (0xff :: 8 word) < d"
  using byte_bound [of d] by (simp add: word_less_nat_alt)

lemma byte_not_less_max: "\<not> c < (0xff :: 8 word) \<Longrightarrow> c = 0xff"
  using byte_bound [of c] by (simp add: word_less_nat_alt word_unat_eq_iff)

lemma byte_succ_gap:
  "c < (0xff :: 8 word) \<Longrightarrow> (c < d \<or> c = d \<and> P) \<and> d < c + 1 \<longleftrightarrow> c = d \<and> P"
  using byte_bound [of c] byte_bound [of d]
  by (auto simp: word_less_nat_alt word_unat_eq_iff unat_word_ariths)

text \<open>Above a key made of \<^verbatim>\<open>0xff\<close> bytes only there are just its extensions.\<close>

lemma all_max_le_iff_prefix:
  "\<forall>x \<in> set p. x = (0xff :: 8 word) \<Longrightarrow> p \<le> k \<longleftrightarrow> prefix p k"
proof (induction p arbitrary: k)
  case Nil
  then show ?case by simp
next
  case (Cons a p)
  show ?case
  proof (cases k)
    case Nil
    then show ?thesis by simp
  next
    case (Cons d k')
    have "a = 0xff" using Cons.prems by simp
    moreover have "p \<le> k' \<longleftrightarrow> prefix p k'"
      using Cons.IH Cons.prems by simp
    ultimately show ?thesis
      using Cons byte_max [of d] by auto
  qed
qed

lemma limit_iff_prefix:
  assumes "c < (0xff :: 8 word)" and "\<forall>x \<in> set r. x = 0xff"
  shows "q @ c # r \<le> k \<and> k < q @ [c + 1] \<longleftrightarrow> prefix (q @ c # r) k"
proof (induction q arbitrary: k)
  case Nil
  show ?case
  proof (cases k)
    case Nil
    then show ?thesis by simp
  next
    case (Cons d k')
    have "(c < d \<or> c = d \<and> r \<le> k') \<and> d < c + 1 \<longleftrightarrow> c = d \<and> r \<le> k'"
      using assms(1) by (rule byte_succ_gap)
    then show ?thesis
      using Cons all_max_le_iff_prefix [OF assms(2), of k'] by auto
  qed
next
  case (Cons a q)
  show ?case
  proof (cases k)
    case Nil
    then show ?thesis by simp
  next
    case (Cons d k')
    then show ?thesis
      using Cons.IH [of k'] by auto
  qed
qed

lemma prefix_limit_range:
  assumes "j \<le> length p" and "\<forall>i. j \<le> i \<and> i < length p \<longrightarrow> p ! i = 0xff"
  shows "p \<le> k \<and> (case prefix_limit p j of None \<Rightarrow> True | Some l \<Rightarrow> k < l) \<longleftrightarrow> prefix p k"
  using assms
proof (induction j)
  case 0
  then have "\<forall>x \<in> set p. x = 0xff"
    by (auto simp: in_set_conv_nth)
  then show ?case
    by (simp add: all_max_le_iff_prefix)
next
  case (Suc j)
  show ?case
  proof (cases "p ! j < 0xff")
    case True
    have split: "p = take j p @ p ! j # drop (Suc j) p"
      using Suc.prems(1) by (simp add: id_take_nth_drop)
    have "\<forall>x \<in> set (drop (Suc j) p). x = 0xff"
      using Suc.prems by (auto simp: in_set_conv_nth)
    then have "take j p @ p ! j # drop (Suc j) p \<le> k \<and> k < take j p @ [p ! j + 1]
               \<longleftrightarrow> prefix (take j p @ p ! j # drop (Suc j) p) k"
      using True by (intro limit_iff_prefix)
    then have "p \<le> k \<and> k < take j p @ [p ! j + 1] \<longleftrightarrow> prefix p k"
      using split by simp
    then show ?thesis
      using True by simp
  next
    case False
    then have "p ! j = 0xff" by (rule byte_not_less_max)
    then have "\<forall>i. j \<le> i \<and> i < length p \<longrightarrow> p ! i = 0xff"
      using Suc.prems(2) by (metis Suc_leI le_neq_implies_less)
    then show ?thesis
      using Suc.IH Suc.prems(1) False by simp
  qed
qed

lemma in_range_BytesPrefix: "in_range (Some (BytesPrefix p)) k \<longleftrightarrow> prefix p k"
proof -
  have "p \<le> k \<and> (case prefix_limit p (length p) of None \<Rightarrow> True | Some l \<Rightarrow> k < l)
        \<longleftrightarrow> prefix p k"
    by (rule prefix_limit_range) auto
  then show ?thesis
    by (simp add: in_range_def BytesPrefix_def)
qed

section \<open>Facts about an iteration\<close>

lemma records_NewIterator:
  assumes "table_of (core st) w = Inr t"
  shows "records (core_NewIterator (core st)
           (if length pfx > 0 then Some (BytesPrefix (makeKey pfx)) else None) w)
         = with_prefix pfx t"
proof (cases "pfx = []")
  case True
  then show ?thesis
    using assms by (simp add: core_NewIterator_def with_prefix_def in_range_def)
next
  case False
  then show ?thesis
    using assms
    by (simp add: core_NewIterator_def with_prefix_def in_range_BytesPrefix makeKey_def)
qed

lemma drain_unsent:
  "drain (Pulling it f True n)
   = \<lparr>N = n, IterKey = Iterator_Key it, IterValue = Iterator_Value it\<rparr>
     # drain (Pulling it f False n)"
  by (subst drain.simps) simp

lemma drain_forward_At:
  "pos it = At i \<Longrightarrow> i < length (records it) \<Longrightarrow>
   drain (Pulling it IterNext False n) = numbered (n + 1) (drop (Suc i) (records it))"
proof (induction "length (records it) - Suc i" arbitrary: i it n)
  case 0
  then have "\<not> Suc i < length (records it)" by simp
  then show ?case
    using "0.prems" by (subst drain.simps) (simp add: Iterator_Next_def)
next
  case (Suc d)
  then have more: "Suc i < length (records it)" by simp
  let ?it = "it\<lparr>pos := At (Suc i)\<rparr>"
  have "drain (Pulling ?it IterNext False (n + 1))
        = numbered (n + 1 + 1) (drop (Suc (Suc i)) (records ?it))"
    using Suc.hyps(2) more by (intro Suc.hyps(1)) simp_all
  moreover have "drop (Suc i) (records it)
                 = records it ! Suc i # drop (Suc (Suc i)) (records it)"
    using more by (simp add: Cons_nth_drop_Suc)
  ultimately show ?case
    using Suc.prems more
    by (subst drain.simps)
       (simp add: Iterator_Next_def Iterator_Key_def Iterator_Value_def)
qed

lemma drain_forward_SOI:
  assumes "pos it = SOI"
  shows "drain (Pulling it IterNext False n) = numbered (n + 1) (records it)"
proof (cases "records it")
  case Nil
  then show ?thesis
    using assms by (subst drain.simps) (simp add: Iterator_Next_def)
next
  case (Cons r rs)
  let ?it = "it\<lparr>pos := At 0\<rparr>"
  have "drain (Pulling ?it IterNext False (n + 1))
        = numbered (n + 1 + 1) (drop (Suc 0) (records ?it))"
    using Cons by (intro drain_forward_At) simp_all
  then show ?thesis
    using assms Cons
    by (subst drain.simps)
       (simp add: Iterator_Next_def Iterator_Key_def Iterator_Value_def)
qed

lemma drain_backward_At:
  "pos it = At i \<Longrightarrow> i < length (records it) \<Longrightarrow>
   drain (Pulling it IterPrev False n) = numbered (n + 1) (rev (take i (records it)))"
proof (induction i arbitrary: it n)
  case 0
  then show ?case
    by (subst drain.simps) (simp add: Iterator_Prev_def)
next
  case (Suc i)
  let ?it = "it\<lparr>pos := At i\<rparr>"
  have "drain (Pulling ?it IterPrev False (n + 1))
        = numbered (n + 1 + 1) (rev (take i (records ?it)))"
    using Suc.prems by (intro Suc.IH) simp_all
  moreover have "take (Suc i) (records it) = take i (records it) @ [records it ! i]"
    using Suc.prems by (simp add: take_Suc_conv_app_nth)
  ultimately show ?case
    using Suc.prems
    by (subst drain.simps)
       (simp add: Iterator_Prev_def Iterator_Key_def Iterator_Value_def)
qed

lemma drain_GetIterator:
  assumes "table_of (core st) w = Inr t"
  shows "drain (GetIterator st pfx reverse w)
         = (if reverse then numbered 0 (rev (with_prefix pfx t))
            else numbered 1 (with_prefix pfx t))"
proof -
  let ?it = "core_NewIterator (core st)
               (if length pfx > 0 then Some (BytesPrefix (makeKey pfx)) else None) w"
  have recs: "records ?it = with_prefix pfx t"
    using assms by (rule records_NewIterator)
  have start: "pos ?it = SOI"
    by (simp add: core_NewIterator_def)
  show ?thesis
  proof (cases reverse)
    case False
    have "drain (Pulling ?it IterNext False 0) = numbered (0 + 1) (records ?it)"
      using start by (rule drain_forward_SOI)
    then show ?thesis
      using False recs by (simp add: GetIterator_def Let_def)
  next
    case True
    show ?thesis
    proof (cases "with_prefix pfx t = []")
      case empty: True
      then have "GetIterator st pfx reverse w = Finished (Iterator_Release (?it\<lparr>pos := SOI\<rparr>))"
        using True recs start by (simp add: GetIterator_def Let_def Iterator_Last_def)
      then show ?thesis
        using True empty by (subst drain.simps) simp
    next
      case False
      let ?n = "length (with_prefix pfx t)"
      let ?last = "?it\<lparr>pos := At (?n - 1)\<rparr>"
      have session: "GetIterator st pfx reverse w = Pulling ?last IterPrev True 0"
        using True False recs start by (simp add: GetIterator_def Let_def Iterator_Last_def)
      have rest: "drain (Pulling ?last IterPrev False 0)
            = numbered (0 + 1) (rev (take (?n - 1) (records ?last)))"
        using False recs by (intro drain_backward_At) simp_all
      have "with_prefix pfx t
            = take (?n - 1) (with_prefix pfx t) @ [with_prefix pfx t ! (?n - 1)]"
        using False
        by (metis append_butlast_last_id butlast_conv_take last_conv_nth)
      then have "rev (with_prefix pfx t)
                 = rev (take (?n - 1) (with_prefix pfx t) @ [with_prefix pfx t ! (?n - 1)])"
        by simp
      then have split: "rev (with_prefix pfx t)
                 = with_prefix pfx t ! (?n - 1) # rev (take (?n - 1) (with_prefix pfx t))"
        by simp
      have "drain (GetIterator st pfx reverse w)
            = \<lparr>N = 0, IterKey = fst (with_prefix pfx t ! (?n - 1)),
                 IterValue = snd (with_prefix pfx t ! (?n - 1))\<rparr>
              # numbered (0 + 1) (rev (take (?n - 1) (with_prefix pfx t)))"
        using False recs rest
        by (simp add: session drain_unsent Iterator_Key_def Iterator_Value_def)
      also have "\<dots> = numbered 0 (rev (with_prefix pfx t))"
        by (subst split) simp
      finally show ?thesis
        using True by simp
    qed
  qed
qed

lemma drain_more:
  assumes "snd (fst (next_fn s))"
  shows "drain s = fst (fst (next_fn s)) # drain (snd (next_fn s))"
proof -
  obtain item hasMore s' where "next_fn s = ((item, hasMore), s')"
    by (metis surj_pair)
  then show ?thesis
    using assms by (subst drain.simps) simp
qed

lemma drain_no_more:
  assumes "\<not> snd (fst (next_fn s))"
  shows "drain s = []"
proof -
  obtain item hasMore s' where "next_fn s = ((item, hasMore), s')"
    by (metis surj_pair)
  then show ?thesis
    using assms by (subst drain.simps) simp
qed

lemma drain_nonempty: "drain s \<noteq> [] \<Longrightarrow> snd (fst (next_fn s))"
  using drain_no_more by blast

lemma calls_while_records:
  "j < length (drain s) \<Longrightarrow> fst (next_fn (after_calls j s)) = (drain s ! j, True)"
proof (induction j arbitrary: s)
  case 0
  then have "snd (fst (next_fn s))"
    by (intro drain_nonempty) auto
  then show ?case
    by (simp add: drain_more prod_eq_iff)
next
  case (Suc j)
  then have more: "snd (fst (next_fn s))"
    by (intro drain_nonempty) auto
  then have "j < length (drain (snd (next_fn s)))"
    using Suc.prems by (simp add: drain_more)
  then show ?case
    using Suc.IH more by (simp add: drain_more)
qed

lemma call_after_records:
  "\<not> snd (fst (next_fn (after_calls (length (drain s)) s)))"
proof (induction "length (drain s)" arbitrary: s)
  case 0
  then have "\<not> snd (fst (next_fn s))"
    using drain_more [of s] by auto
  then show ?case
    using 0 by simp
next
  case (Suc d)
  then have more: "snd (fst (next_fn s))"
    by (intro drain_nonempty) auto
  then have "d = length (drain (snd (next_fn s)))"
    using Suc.hyps(2) by (simp add: drain_more)
  then show ?case
    using Suc.hyps(1) Suc.hyps(2) more by (simp add: drain_more)
qed

lemma Iterator_Release_Released: "pos it = Released \<Longrightarrow> Iterator_Release it = it"
  by (simp add: Iterator_Release_def)

lemma spent_next_fn: "spent s \<Longrightarrow> next_fn s = ((zero_IterItem, False), s)"
  by (cases s; cases "case s of Pulling it f h n \<Rightarrow> f | _ \<Rightarrow> IterNext")
     (simp_all add: Iterator_Next_def Iterator_Prev_def Iterator_Release_Released)

lemma spent_after_calls: "spent s \<Longrightarrow> after_calls j s = s"
  by (induction j) (simp_all add: spent_next_fn)

lemma no_more_spent:
  "proper s \<Longrightarrow> \<not> snd (fst (next_fn s)) \<Longrightarrow>
   fst (fst (next_fn s)) = zero_IterItem \<and> spent (snd (next_fn s))"
  by (cases s) (auto simp: Iterator_Release_def split: if_splits prod.splits)

lemma proper_next_fn: "proper s \<Longrightarrow> proper (snd (next_fn s))"
  by (cases s) (auto split: if_splits prod.splits)

lemma proper_after_calls: "proper s \<Longrightarrow> proper (after_calls j s)"
  by (induction j arbitrary: s) (simp_all add: proper_next_fn)

lemma after_calls_add: "after_calls (i + j) s = after_calls j (after_calls i s)"
  by (induction i arbitrary: s) simp_all

lemma calls_after_records:
  assumes "proper s" and "length (drain s) \<le> j"
  shows "fst (next_fn (after_calls j s)) = (zero_IterItem, False)
         \<and> spent (after_calls (Suc j) s)"
proof -
  let ?e = "after_calls (length (drain s)) s"
  have e: "fst (fst (next_fn ?e)) = zero_IterItem \<and> spent (snd (next_fn ?e))"
    using assms(1) call_after_records [of s] by (intro no_more_spent proper_after_calls)
  have first: "fst (next_fn ?e) = (zero_IterItem, False)"
    using e call_after_records [of s] by (simp add: prod_eq_iff)
  have suc: "after_calls (Suc i) s = snd (next_fn (after_calls i s))" for i
    using after_calls_add [of i 1 s] by simp
  show ?thesis
  proof (cases "j = length (drain s)")
    case True
    have "spent (snd (next_fn (after_calls j s)))"
      using e True by simp
    then have "spent (after_calls (Suc j) s)"
      by (simp only: suc)
    then show ?thesis
      using first True by simp
  next
    case False
    then obtain d where j: "j = Suc (length (drain s)) + d"
      using assms(2) by (metis Suc_leI le_neq_implies_less le_Suc_ex)
    have "after_calls j s = after_calls d (after_calls (Suc (length (drain s))) s)"
      unfolding j by (rule after_calls_add)
    also have "\<dots> = after_calls d (snd (next_fn ?e))"
      by (simp only: suc)
    also have "\<dots> = snd (next_fn ?e)"
      using e by (simp add: spent_after_calls)
    finally have at_j: "after_calls j s = snd (next_fn ?e)" .
    have "next_fn (after_calls j s) = ((zero_IterItem, False), after_calls j s)"
      using e at_j by (simp add: spent_next_fn)
    moreover have "spent (after_calls j s)"
      using e at_j by simp
    ultimately have "fst (next_fn (after_calls j s)) = (zero_IterItem, False)
        \<and> spent (snd (next_fn (after_calls j s)))"
      by simp
    then show ?thesis
      by (simp only: suc)
  qed
qed

lemma spent_released: "spent s \<Longrightarrow> pos (cursor s) = Released"
  by (cases s) simp_all

lemma held_next_fn:
  "snd (fst (next_fn s)) \<Longrightarrow> pos (cursor s) \<noteq> Released \<Longrightarrow>
   pos (cursor (snd (next_fn s))) \<noteq> Released"
  by (cases s; cases "case s of Pulling it f h n \<Rightarrow> f | _ \<Rightarrow> IterNext")
     (auto simp: Iterator_Next_def Iterator_Prev_def Iterator_Last_def
           split: if_splits position.splits)

lemma held_while_records:
  "pos (cursor s) \<noteq> Released \<Longrightarrow> j \<le> length (drain s) \<Longrightarrow>
   pos (cursor (after_calls j s)) \<noteq> Released"
proof (induction j arbitrary: s)
  case 0
  then show ?case by simp
next
  case (Suc j)
  then have more: "snd (fst (next_fn s))"
    by (intro drain_nonempty) auto
  then have "j \<le> length (drain (snd (next_fn s)))"
    using Suc.prems(2) by (simp add: drain_more)
  then show ?case
    using Suc.IH Suc.prems(1) more by (simp add: held_next_fn)
qed

lemma length_numbered: "length (numbered n rs) = length rs"
  by (induction rs arbitrary: n) simp_all

lemma proper_GetIterator: "proper (GetIterator st pfx reverse w)"
  by (simp add: GetIterator_def Let_def Iterator_Release_def split: prod.splits)

lemma held_GetIterator:
  assumes "table_of (core st) w = Inr t"
  shows "pos (cursor (GetIterator st pfx reverse w)) = Released
         \<longleftrightarrow> reverse \<and> with_prefix pfx t = []"
  using records_NewIterator [OF assms, of pfx]
  by (auto simp: GetIterator_def Let_def Iterator_Last_def Iterator_Release_def
        core_NewIterator_def split: prod.splits if_splits)

lemma keys_numbered: "map IterKey (numbered n rs) = map fst rs"
  by (induction rs arbitrary: n) simp_all

lemma N_numbered: "i < length rs \<Longrightarrow> N (numbered n rs ! i) = n + of_nat i"
proof (induction rs arbitrary: n i)
  case Nil
  then show ?case by simp
next
  case (Cons r rs)
  then show ?case
    by (cases i) (simp_all add: add.assoc add.commute)
qed

lemma keys_with_prefix:
  assumes "distinct (map fst t)"
  shows "map fst (with_prefix p t) = sort (filter (prefix p) (map fst t))"
proof (rule sorted_distinct_set_unique)
  show "sorted (map fst (with_prefix p t))"
    by (simp add: with_prefix_def)
  have "distinct (map fst (filter (\<lambda>r. prefix p (fst r)) t))"
    using assms by (rule distinct_map_filter)
  then show "distinct (map fst (with_prefix p t))"
    by (simp add: with_prefix_def distinct_map)
  show "sorted (sort (filter (prefix p) (map fst t)))"
    by simp
  show "distinct (sort (filter (prefix p) (map fst t)))"
    using assms by simp
  show "set (map fst (with_prefix p t)) = set (sort (filter (prefix p) (map fst t)))"
    by (auto simp: with_prefix_def)
qed

lemma New_all_table:
  assumes "table_of (core st) w = Inr t"
    and "distinct (map fst t)"
    and "distinct (map fst kvs)"
    and "\<forall>kv \<in> set kvs. map_of t (fst kv) = None"
    and "\<forall>kv \<in> set kvs. \<exists>b. New_encode cd (snd kv) = Inr b"
  shows "\<exists>w' t'. New_all st cd kvs w = (None, w') \<and> table_of (core st) w' = Inr t'
           \<and> distinct (map fst t') \<and> set (map fst t') = set (map fst t) \<union> set (map fst kvs)"
  using assms
proof (induction kvs arbitrary: w t)
  case Nil
  then show ?case by simp
next
  case (Cons kv kvs)
  obtain b where b: "New_encode cd (snd kv) = Inr b"
    using Cons.prems(5) by auto
  let ?t = "AList.update (fst kv) b t"
  let ?w = "set_table (core st) ?t w"
  have absent: "map_of t (fst kv) = None"
    using Cons.prems(4) by simp
  have new: "New st cd (fst kv) (snd kv) w = (None, ?w)"
    using Cons.prems(1) b absent
    by (simp add: New_def Has_table core_Put_table makeKey_def)
  have tab: "table_of (core st) ?w = Inr ?t"
    using Cons.prems(1) by (rule table_of_set_table)
  have dist: "distinct (map fst ?t)"
    using Cons.prems(2) by (rule distinct_update)
  have keys: "set (map fst ?t) = insert (fst kv) (set (map fst t))"
    by (simp add: dom_update)
  have fresh: "\<forall>x \<in> set kvs. map_of ?t (fst x) = None"
  proof
    fix x assume x: "x \<in> set kvs"
    then have "fst x \<in> fst ` set kvs"
      by (rule imageI)
    moreover have "fst kv \<notin> fst ` set kvs"
      using Cons.prems(3) by simp
    ultimately have "fst x \<noteq> fst kv"
      by metis
    then show "map_of ?t (fst x) = None"
      using Cons.prems(4) x by (simp add: update_conv')
  qed
  have "\<exists>w' t'. New_all st cd kvs ?w = (None, w') \<and> table_of (core st) w' = Inr t'
           \<and> distinct (map fst t') \<and> set (map fst t') = set (map fst ?t) \<union> set (map fst kvs)"
    using tab dist Cons.prems(3,5) fresh by (intro Cons.IH) simp_all
  then show ?case
    using new keys by auto
qed

lemma sort_same_keys:
  "distinct xs \<Longrightarrow> distinct ys \<Longrightarrow> set xs = set ys \<Longrightarrow>
   sort (filter P xs) = sort (filter P (ys :: bytes list))"
  by (rule sorted_distinct_set_unique) simp_all

lemma sint_sequence: "k < 2 ^ 63 \<Longrightarrow> sint (of_nat k :: 64 word) = int k"
  by (simp add: signed_of_nat signed_take_bit_int_eq_self)

lemma Ns_numbered: "map N (numbered n rs) = map (\<lambda>i. n + of_nat i) [0..<length rs]"
  by (rule nth_equalityI) (simp_all add: length_numbered N_numbered)

lemma numbered_increasing:
  assumes "m \<le> 1" and "length rs < 2 ^ 63"
  shows "sorted_wrt (\<lambda>a b. sint (N a) < sint (N b)) (numbered (of_nat m) rs)"
proof -
  have "sint (N (numbered (of_nat m) rs ! i)) = int (m + i)" if "i < length rs" for i
  proof -
    have "N (numbered (of_nat m) rs ! i) = of_nat (m + i)"
      using that by (simp add: N_numbered)
    moreover have "m + i < 2 ^ 63"
      using that assms by simp
    ultimately show ?thesis
      by (simp only: sint_sequence)
  qed
  then show ?thesis
    by (simp add: sorted_wrt_iff_nth_less length_numbered)
qed

section \<open>Transactions\<close>

text \<open>
  C8. The role of a handle is checked first: \<^verbatim>\<open>OpenTransaction\<close> on a handle that is a
  transaction fails with \<open>NoNestedTransaction\<close> and returns no handle; \<^verbatim>\<open>Discard\<close> and
  \<^verbatim>\<open>Commit\<close> on a handle that is not a transaction fail with \<open>NotATransaction\<close>. In
  each case nothing in the world changes.
\<close>

theorem handle_role_validation:
  "(core st = Transaction i \<longrightarrow> OpenTransaction st w = (Inl NoNestedTransaction, w))
   \<and> (core st = DB \<longrightarrow> Discard st w = (Some NotATransaction, w)
                      \<and> Commit st w = (Some NotATransaction, w))"
  by (simp add: OpenTransaction_def Discard_def Commit_def)

theorem handle_role_validation_witness:
  "core (LevelDBBackend (Transaction 0)) = Transaction 0
   \<and> OpenTransaction (LevelDBBackend (Transaction 0))
        \<lparr>db_table = [([1], [2])], trs = [\<lparr>tr_table = [([1], [2])], tr_closed = False\<rparr>]\<rparr>
      = (Inl NoNestedTransaction,
         \<lparr>db_table = [([1], [2])], trs = [\<lparr>tr_table = [([1], [2])], tr_closed = False\<rparr>]\<rparr>)
   \<and> core (LevelDBBackend DB) = DB
   \<and> Discard (LevelDBBackend DB) \<lparr>db_table = [([1], [2])], trs = []\<rparr>
      = (Some NotATransaction, \<lparr>db_table = [([1], [2])], trs = []\<rparr>)
   \<and> Commit (LevelDBBackend DB) \<lparr>db_table = [([1], [2])], trs = []\<rparr>
      = (Some NotATransaction, \<lparr>db_table = [([1], [2])], trs = []\<rparr>)"
  using handle_role_validation [of "LevelDBBackend (Transaction 0)" 0
      "\<lparr>db_table = [([1], [2])], trs = [\<lparr>tr_table = [([1], [2])], tr_closed = False\<rparr>]\<rparr>"]
    handle_role_validation [of "LevelDBBackend DB" 0 "\<lparr>db_table = [([1], [2])], trs = []\<rparr>"]
  by simp

text \<open>
  C3, as stated, fails: a second \<^verbatim>\<open>Discard\<close> is not an error. A transaction is opened on
  an empty database and discarded; the second \<^verbatim>\<open>Discard\<close> on the same handle returns
  \<^verbatim>\<open>nil\<close> again.
\<close>

theorem Discard_twice_counterexample:
  "OpenTransaction (LevelDBBackend DB) \<lparr>db_table = [], trs = []\<rparr>
     = (Inr (LevelDBBackend (Transaction 0)),
        \<lparr>db_table = [], trs = [\<lparr>tr_table = [], tr_closed = False\<rparr>]\<rparr>)
   \<and> Discard (LevelDBBackend (Transaction 0))
        \<lparr>db_table = [], trs = [\<lparr>tr_table = [], tr_closed = False\<rparr>]\<rparr>
     = (None, \<lparr>db_table = [], trs = [\<lparr>tr_table = [], tr_closed = True\<rparr>]\<rparr>)
   \<and> Discard (LevelDBBackend (Transaction 0))
        \<lparr>db_table = [], trs = [\<lparr>tr_table = [], tr_closed = True\<rparr>]\<rparr>
     = (None, \<lparr>db_table = [], trs = [\<lparr>tr_table = [], tr_closed = True\<rparr>]\<rparr>)"
  by (simp add: OpenTransaction_def DB_OpenTransaction_def Discard_def Transaction_Discard_def
        tr_live_def)

text \<open>
  C3, amended. The first \<^verbatim>\<open>Commit\<close> or \<^verbatim>\<open>Discard\<close> on a transaction in flight succeeds
  and terminates it. On the terminated handle a later \<^verbatim>\<open>Commit\<close> is an error (the
  engine's \<open>ErrTransactionDone\<close>), while a later \<^verbatim>\<open>Discard\<close> returns \<^verbatim>\<open>nil\<close>; neither
  changes anything.
\<close>

theorem terminated_transaction:
  assumes "core st = Transaction i" and "tr_live i w"
  shows "fst (Commit st w) = None \<and> fst (Discard st w) = None
         \<and> (\<forall>w1 \<in> {snd (Commit st w), snd (Discard st w)}.
              Commit st w1 = (Some (EngineError ErrTransactionDone), w1)
              \<and> Discard st w1 = (None, w1))"
proof -
  have done_tr: "Commit st w1 = (Some (EngineError ErrTransactionDone), w1)
                 \<and> Discard st w1 = (None, w1)" if "\<not> tr_live i w1" for w1
    using that assms(1) by (simp add: Commit_def Discard_def Transaction_Commit_def
        Transaction_Discard_def)
  have c: "snd (Commit st w) = snd (Transaction_Commit i w)"
    using assms(1) by (simp add: Commit_def split: prod.splits)
  have d: "snd (Discard st w) = Transaction_Discard i w"
    using assms(1) by (simp add: Discard_def)
  have "fst (Commit st w) = None"
    using assms by (simp add: Commit_def Transaction_Commit_def)
  moreover have "fst (Discard st w) = None"
    using assms(1) by (simp add: Discard_def)
  ultimately show ?thesis
    using done_tr c d tr_live_after_Commit tr_live_after_Discard by simp
qed

theorem terminated_transaction_witness:
  "core (LevelDBBackend (Transaction 0)) = Transaction 0
   \<and> tr_live 0 \<lparr>db_table = [], trs = [\<lparr>tr_table = [([1], [2])], tr_closed = False\<rparr>]\<rparr>
   \<and> Commit (LevelDBBackend (Transaction 0))
        \<lparr>db_table = [], trs = [\<lparr>tr_table = [([1], [2])], tr_closed = False\<rparr>]\<rparr>
     = (None, \<lparr>db_table = [([1], [2])], trs = [\<lparr>tr_table = [([1], [2])], tr_closed = True\<rparr>]\<rparr>)
   \<and> Commit (LevelDBBackend (Transaction 0))
        \<lparr>db_table = [([1], [2])], trs = [\<lparr>tr_table = [([1], [2])], tr_closed = True\<rparr>]\<rparr>
     = (Some (EngineError ErrTransactionDone),
        \<lparr>db_table = [([1], [2])], trs = [\<lparr>tr_table = [([1], [2])], tr_closed = True\<rparr>]\<rparr>)
   \<and> Discard (LevelDBBackend (Transaction 0))
        \<lparr>db_table = [([1], [2])], trs = [\<lparr>tr_table = [([1], [2])], tr_closed = True\<rparr>]\<rparr>
     = (None, \<lparr>db_table = [([1], [2])], trs = [\<lparr>tr_table = [([1], [2])], tr_closed = True\<rparr>]\<rparr>)"
  using terminated_transaction [of "LevelDBBackend (Transaction 0)" 0
      "\<lparr>db_table = [], trs = [\<lparr>tr_table = [([1], [2])], tr_closed = False\<rparr>]\<rparr>"]
  by (simp add: tr_live_def Commit_def Transaction_Commit_def)

section \<open>Single-key writes\<close>

text \<open>
  C2, as stated, fails: \<^verbatim>\<open>New\<close> encodes before it checks. The key \<open>[1]\<close> is present and
  the value is a channel; \<^verbatim>\<open>New\<close> returns the encoder's error, not \<open>AlreadyExists\<close>.
\<close>

theorem New_present_unencodable_counterexample:
  "Has (LevelDBBackend DB) [1] \<lparr>db_table = [([1], [2])], trs = []\<rparr> = (True, None)
   \<and> New (LevelDBBackend DB) sample_codec [1] Chan \<lparr>db_table = [([1], [2])], trs = []\<rparr>
     = (Some (EncodeError ''json: unsupported type: chan int''),
        \<lparr>db_table = [([1], [2])], trs = []\<rparr>)"
  by (simp add: New_def New_encode_def sample_codec_def Has_def core_Has_def table_of_def
        makeKey_def)

text \<open>
  C2, amended. \<^verbatim>\<open>New\<close> encodes first: with the value's \<^verbatim>\<open>Serialize\<close> when it has one,
  with the generic encoder otherwise. When the encoding fails, \<^verbatim>\<open>New\<close> fails with that
  error, whether the key is present or not. When it succeeds and the key is present,
  \<^verbatim>\<open>New\<close> fails with \<open>AlreadyExists\<close>. In both cases nothing changes. When it succeeds
  and the key is absent, the encoded bytes are written under the key, and \<^verbatim>\<open>GetRaw\<close>
  reads them back.
\<close>

theorem New_encodes_then_checks:
  assumes "table_of (core st) w = Inr t"
  shows "New_encode cd v =
           (case Serialize cd v of
              Some serialized \<Rightarrow> serialized
            | None \<Rightarrow> EncodeJSONValue cd (AnyValue v))
         \<and> (case New_encode cd v of
              Inl m \<Rightarrow> New st cd k v w = (Some (EncodeError m), w)
            | Inr encoded \<Rightarrow>
                if map_of t k \<noteq> None
                then New st cd k v w = (Some (AlreadyExists k), w)
                else New st cd k v w = (None, set_table (core st) (AList.update k encoded t) w)
                     \<and> GetRaw st k (set_table (core st) (AList.update k encoded t) w)
                         = Inr encoded)"
proof -
  have "New st cd k v w = (Some (EncodeError m), w)" if "New_encode cd v = Inl m" for m
    using that by (simp add: New_def)
  moreover have "New st cd k v w = (Some (AlreadyExists k), w)"
    if "New_encode cd v = Inr encoded" and "map_of t k \<noteq> None" for encoded
    using that assms by (simp add: New_def Has_table)
  moreover have "New st cd k v w = (None, set_table (core st) (AList.update k encoded t) w)"
    if "New_encode cd v = Inr encoded" and "map_of t k = None" for encoded
    using that assms by (simp add: New_def Has_table core_Put_table makeKey_def)
  moreover have "GetRaw st k (set_table (core st) (AList.update k encoded t) w) = Inr encoded"
    for encoded
    using table_of_set_table [OF assms, of "AList.update k encoded t"]
    by (simp add: GetRaw_table update_conv')
  ultimately show ?thesis
    by (simp add: New_encode_def split: sum.splits)
qed

theorem New_encodes_then_checks_witness:
  "table_of (core (LevelDBBackend DB)) \<lparr>db_table = [([1], [2])], trs = []\<rparr> = Inr [([1], [2])]
   \<and> New (LevelDBBackend DB) sample_codec [1] (Text [3]) \<lparr>db_table = [([1], [2])], trs = []\<rparr>
     = (Some (AlreadyExists [1]), \<lparr>db_table = [([1], [2])], trs = []\<rparr>)
   \<and> New (LevelDBBackend DB) sample_codec [4] (Text [3]) \<lparr>db_table = [([1], [2])], trs = []\<rparr>
     = (None, \<lparr>db_table = [([1], [2]), ([4], [0x22, 3, 0x22])], trs = []\<rparr>)
   \<and> New (LevelDBBackend DB) sample_codec [4] (Custom [3]) \<lparr>db_table = [([1], [2])], trs = []\<rparr>
     = (None, \<lparr>db_table = [([1], [2]), ([4], [3])], trs = []\<rparr>)
   \<and> GetRaw (LevelDBBackend DB) [4] \<lparr>db_table = [([1], [2]), ([4], [3])], trs = []\<rparr> = Inr [3]"
  using New_encodes_then_checks [where st = "LevelDBBackend DB" and w = "\<lparr>db_table = [([1], [2])], trs = []\<rparr>"
      and t = "[([1], [2])]" and cd = sample_codec and v = "Text [3]" and k = "[1]"]
    New_encodes_then_checks [where st = "LevelDBBackend DB" and w = "\<lparr>db_table = [([1], [2])], trs = []\<rparr>"
      and t = "[([1], [2])]" and cd = sample_codec and v = "Text [3]" and k = "[4]"]
    New_encodes_then_checks [where st = "LevelDBBackend DB" and w = "\<lparr>db_table = [([1], [2])], trs = []\<rparr>"
      and t = "[([1], [2])]" and cd = sample_codec and v = "Custom [3]" and k = "[4]"]
  by (simp add: table_of_def set_table_def sample_codec_def New_encode_def)

text \<open>
  C9, as stated, fails for the same reason: \<^verbatim>\<open>Set\<close> encodes before it checks. The key
  \<open>[1]\<close> is absent and the value is a channel; \<^verbatim>\<open>Set\<close> returns the encoder's error, not
  \<open>NotFound\<close>.
\<close>

theorem Set_absent_unencodable_counterexample:
  "Has (LevelDBBackend DB) [1] \<lparr>db_table = [], trs = []\<rparr> = (False, None)
   \<and> Set (LevelDBBackend DB) sample_codec [1] Chan \<lparr>db_table = [], trs = []\<rparr>
     = (Some (EncodeError ''json: unsupported type: chan int''), \<lparr>db_table = [], trs = []\<rparr>)"
  by (simp add: Set_def sample_codec_def Has_def core_Has_def table_of_def makeKey_def)

text \<open>
  C9, amended. \<^verbatim>\<open>Set\<close> encodes the value with the generic encoder first. When the
  encoding fails, \<^verbatim>\<open>Set\<close> fails with that error, whether the key is present or not. When
  it succeeds and the key is absent, \<^verbatim>\<open>Set\<close> fails with \<open>NotFound\<close>. In both cases
  nothing changes. When it succeeds and the key is present, the encoded bytes replace
  those stored under the key.
\<close>

theorem Set_encodes_then_checks:
  assumes "table_of (core st) w = Inr t"
  shows "(case EncodeJSONValue cd (AnyValue v) of
            Inl m \<Rightarrow> Set st cd k v w = (Some (EncodeError m), w)
          | Inr encoded \<Rightarrow>
              if map_of t k = None
              then Set st cd k v w = (Some (NotFound k), w)
              else Set st cd k v w = (None, set_table (core st) (AList.update k encoded t) w)
                   \<and> GetRaw st k (set_table (core st) (AList.update k encoded t) w)
                       = Inr encoded)"
proof -
  have "Set st cd k v w = (Some (EncodeError m), w)"
    if "EncodeJSONValue cd (AnyValue v) = Inl m" for m
    using that by (simp add: Set_def)
  moreover have "Set st cd k v w = (Some (NotFound k), w)"
    if "EncodeJSONValue cd (AnyValue v) = Inr encoded" and "map_of t k = None" for encoded
    using that assms by (simp add: Set_def Has_table)
  moreover have "Set st cd k v w = (None, set_table (core st) (AList.update k encoded t) w)"
    if "EncodeJSONValue cd (AnyValue v) = Inr encoded" and "map_of t k \<noteq> None" for encoded
    using that assms by (simp add: Set_def Has_table core_Put_table makeKey_def)
  moreover have "GetRaw st k (set_table (core st) (AList.update k encoded t) w) = Inr encoded"
    for encoded
    using table_of_set_table [OF assms, of "AList.update k encoded t"]
    by (simp add: GetRaw_table update_conv')
  ultimately show ?thesis
    by (simp split: sum.splits)
qed

theorem Set_encodes_then_checks_witness:
  "table_of (core (LevelDBBackend DB)) \<lparr>db_table = [([1], [2])], trs = []\<rparr> = Inr [([1], [2])]
   \<and> Set (LevelDBBackend DB) sample_codec [4] (Text [3]) \<lparr>db_table = [([1], [2])], trs = []\<rparr>
     = (Some (NotFound [4]), \<lparr>db_table = [([1], [2])], trs = []\<rparr>)
   \<and> Set (LevelDBBackend DB) sample_codec [1] (Text [3]) \<lparr>db_table = [([1], [2])], trs = []\<rparr>
     = (None, \<lparr>db_table = [([1], [0x22, 3, 0x22])], trs = []\<rparr>)
   \<and> GetRaw (LevelDBBackend DB) [1] \<lparr>db_table = [([1], [0x22, 3, 0x22])], trs = []\<rparr>
     = Inr [0x22, 3, 0x22]"
  using Set_encodes_then_checks [where st = "LevelDBBackend DB" and w = "\<lparr>db_table = [([1], [2])], trs = []\<rparr>"
      and t = "[([1], [2])]" and cd = sample_codec and v = "Text [3]" and k = "[4]"]
    Set_encodes_then_checks [where st = "LevelDBBackend DB" and w = "\<lparr>db_table = [([1], [2])], trs = []\<rparr>"
      and t = "[([1], [2])]" and cd = sample_codec and v = "Text [3]" and k = "[1]"]
  by (simp add: table_of_def set_table_def sample_codec_def)

text \<open>
  C4. When the key is absent and the bytes that \<^verbatim>\<open>New\<close> encodes for the value decode
  back to the value (the round-trip law of the encoding, at this value), \<^verbatim>\<open>New\<close>
  succeeds and \<^verbatim>\<open>Get\<close> on the same key then yields the value.
\<close>

theorem New_then_Get:
  assumes "table_of (core st) w = Inr t"
    and "map_of t k = None"
    and "New_encode cd v = Inr encoded"
    and "Unmarshal cd encoded = Inr v"
  shows "fst (New st cd k v w) = None \<and> Get st cd k (snd (New st cd k v w)) = Inr v"
proof -
  let ?w' = "set_table (core st) (AList.update k encoded t) w"
  have new: "New st cd k v w = (None, ?w')"
    using assms(1-3) by (simp add: New_def Has_table core_Put_table makeKey_def)
  have "table_of (core st) ?w' = Inr (AList.update k encoded t)"
    using assms(1) by (rule table_of_set_table)
  then have "GetRaw st k ?w' = Inr encoded"
    by (simp add: GetRaw_table update_conv')
  then have "Get st cd k ?w' = Inr v"
    using assms(4) by (simp add: Get_def)
  with new show ?thesis by simp
qed

theorem New_then_Get_witness:
  "table_of (core (LevelDBBackend DB)) \<lparr>db_table = [([1], [2])], trs = []\<rparr> = Inr [([1], [2])]
   \<and> map_of [([1], [2 :: 8 word])] [4 :: 8 word] = None
   \<and> New_encode sample_codec (Text [3]) = Inr [0x22, 3, 0x22]
   \<and> Unmarshal sample_codec [0x22, 3, 0x22] = Inr (Text [3])
   \<and> fst (New (LevelDBBackend DB) sample_codec [4] (Text [3])
            \<lparr>db_table = [([1], [2])], trs = []\<rparr>) = None
   \<and> Get (LevelDBBackend DB) sample_codec [4]
        (snd (New (LevelDBBackend DB) sample_codec [4] (Text [3])
                \<lparr>db_table = [([1], [2])], trs = []\<rparr>)) = Inr (Text [3])"
  using New_then_Get [where st = "LevelDBBackend DB" and w = "\<lparr>db_table = [([1], [2])], trs = []\<rparr>"
      and t = "[([1], [2])]" and k = "[4]" and cd = sample_codec and v = "Text [3]"
      and encoded = "[0x22, 3, 0x22]"]
  by (simp add: table_of_def sample_codec_def New_encode_def)

section \<open>Batch writes\<close>

text \<open>
  C1, as stated, fails: between the checks and the write a batch call encodes every item,
  and an item that does not encode ends the call. The database is empty, the one item has
  a channel as its value: \<^verbatim>\<open>News\<close> passes the checks and returns the encoder's error;
  nothing is written.
\<close>

theorem News_unencodable_counterexample:
  "News_check (LevelDBBackend DB) [Item [1] Chan] \<lparr>db_table = [], trs = []\<rparr> = None
   \<and> News (LevelDBBackend DB) sample_codec [Item [1] Chan] \<lparr>db_table = [], trs = []\<rparr>
     = (Some (EncodeError ''json: unsupported type: chan int''), \<lparr>db_table = [], trs = []\<rparr>)"
  by (simp add: News_def sample_codec_def Has_def core_Has_def table_of_def makeKey_def)

text \<open>
  C1, amended. For \<^verbatim>\<open>News\<close> and \<^verbatim>\<open>Sets\<close>: an empty list of items fails with
  \<open>EmptyBatch\<close>. Otherwise, if an item fails the existence check (for \<^verbatim>\<open>News\<close> its key
  is present, for \<^verbatim>\<open>Sets\<close> it is absent), the call fails with \<open>AlreadyExists\<close>
  (\<^verbatim>\<open>News\<close>) or \<open>NotFound\<close> (\<^verbatim>\<open>Sets\<close>) for such an item. Otherwise, if an item
  fails to encode, the call fails with an encoding error. In all these cases nothing is
  written. Otherwise one batch holding a put for every item, in order, is written at once.
\<close>

theorem batch_checks_then_writes:
  assumes "table_of (core st) w = Inr t"
  shows "News st cd [] w = (Some EmptyBatch, w) \<and> Sets st cd [] w = (Some EmptyBatch, w)
    \<and> ((\<exists>v \<in> set vs. map_of t (Key v) \<noteq> None) \<longrightarrow>
         (\<exists>v \<in> set vs. map_of t (Key v) \<noteq> None
                      \<and> News st cd vs w = (Some (AlreadyExists (Key v)), w)))
    \<and> ((\<exists>v \<in> set vs. map_of t (Key v) = None) \<longrightarrow>
         (\<exists>v \<in> set vs. map_of t (Key v) = None
                      \<and> Sets st cd vs w = (Some (NotFound (Key v)), w)))
    \<and> ((\<exists>v \<in> set vs. isl (EncodeJSONValue cd (AnyItem v))) \<longrightarrow>
         ((\<forall>v \<in> set vs. map_of t (Key v) = None) \<longrightarrow>
            (\<exists>m. News st cd vs w = (Some (EncodeError m), w)))
       \<and> ((\<forall>v \<in> set vs. map_of t (Key v) \<noteq> None) \<longrightarrow>
            (\<exists>m. Sets st cd vs w = (Some (EncodeError m), w))))
    \<and> (\<forall>bs. vs \<noteq> [] \<and> map (\<lambda>v. EncodeJSONValue cd (AnyItem v)) vs = map Inr bs \<longrightarrow>
         ((\<forall>v \<in> set vs. map_of t (Key v) = None) \<longrightarrow>
            News st cd vs w =
              (None, set_table (core st)
                       (foldl apply_record t (map2 BatchPut (map Key vs) bs)) w))
       \<and> ((\<forall>v \<in> set vs. map_of t (Key v) \<noteq> None) \<longrightarrow>
            Sets st cd vs w =
              (None, set_table (core st)
                       (foldl apply_record t (map2 BatchPut (map Key vs) bs)) w)))"
proof -
  have empty: "News st cd [] w = (Some EmptyBatch, w) \<and> Sets st cd [] w = (Some EmptyBatch, w)"
    by (simp add: News_def Sets_def)
  have none_news: "find (\<lambda>v. map_of t (Key v) \<noteq> None) vs = None"
    if "\<forall>v \<in> set vs. map_of t (Key v) = None"
    using that by (simp add: find_None_iff)
  have none_sets: "find (\<lambda>v. map_of t (Key v) = None) vs = None"
    if "\<forall>v \<in> set vs. map_of t (Key v) \<noteq> None"
    using that by (simp add: find_None_iff)
  have refused: "\<exists>m. fill_batch cd vs [] = Inl m"
    if "\<exists>v \<in> set vs. isl (EncodeJSONValue cd (AnyItem v))"
    using fill_batch_Inl [OF that, of "[]"] by (cases "fill_batch cd vs []") auto
  have filled: "fill_batch cd vs [] = Inr (map2 BatchPut (map Key vs) bs)"
    if "map (\<lambda>v. EncodeJSONValue cd (AnyItem v)) vs = map Inr bs" for bs
    using fill_batch_Inr [OF that, of "[]"] by simp
  have exists: "\<exists>v \<in> set vs. map_of t (Key v) \<noteq> None
                   \<and> News st cd vs w = (Some (AlreadyExists (Key v)), w)"
    if some: "\<exists>v \<in> set vs. map_of t (Key v) \<noteq> None"
  proof -
    have "vs \<noteq> []" using some by auto
    note n = News_result [OF assms this, of cd]
    obtain v where v: "find (\<lambda>v. map_of t (Key v) \<noteq> None) vs = Some v"
      using some by (cases "find (\<lambda>v. map_of t (Key v) \<noteq> None) vs")
        (auto simp: find_None_iff)
    then have "v \<in> set vs \<and> map_of t (Key v) \<noteq> None"
      by (rule find_SomeD)
    then show ?thesis
      using v by (auto simp: n)
  qed
  have missing: "\<exists>v \<in> set vs. map_of t (Key v) = None
                   \<and> Sets st cd vs w = (Some (NotFound (Key v)), w)"
    if some: "\<exists>v \<in> set vs. map_of t (Key v) = None"
  proof -
    have "vs \<noteq> []" using some by auto
    note n = Sets_result [OF assms this, of cd]
    obtain v where v: "find (\<lambda>v. map_of t (Key v) = None) vs = Some v"
      using some by (cases "find (\<lambda>v. map_of t (Key v) = None) vs")
        (auto simp: find_None_iff)
    then have "v \<in> set vs \<and> map_of t (Key v) = None"
      by (rule find_SomeD)
    then show ?thesis
      using v by (auto simp: n)
  qed
  have unencoded: "((\<forall>v \<in> set vs. map_of t (Key v) = None) \<longrightarrow>
            (\<exists>m. News st cd vs w = (Some (EncodeError m), w)))
       \<and> ((\<forall>v \<in> set vs. map_of t (Key v) \<noteq> None) \<longrightarrow>
            (\<exists>m. Sets st cd vs w = (Some (EncodeError m), w)))"
    if some: "\<exists>v \<in> set vs. isl (EncodeJSONValue cd (AnyItem v))"
  proof -
    have "vs \<noteq> []" using some by auto
    note n = News_result [OF assms this, of cd] and s = Sets_result [OF assms this, of cd]
    show ?thesis
      using refused [OF some] none_news none_sets by (auto simp: n s)
  qed
  have written: "((\<forall>v \<in> set vs. map_of t (Key v) = None) \<longrightarrow>
            News st cd vs w =
              (None, set_table (core st)
                       (foldl apply_record t (map2 BatchPut (map Key vs) bs)) w))
       \<and> ((\<forall>v \<in> set vs. map_of t (Key v) \<noteq> None) \<longrightarrow>
            Sets st cd vs w =
              (None, set_table (core st)
                       (foldl apply_record t (map2 BatchPut (map Key vs) bs)) w))"
    if "vs \<noteq> []" and enc: "map (\<lambda>v. EncodeJSONValue cd (AnyItem v)) vs = map Inr bs" for bs
  proof -
    note n = News_result [OF assms that(1), of cd] and s = Sets_result [OF assms that(1), of cd]
    show ?thesis
      using filled [OF enc] none_news none_sets by (auto simp: n s)
  qed
  show ?thesis
    using empty exists missing unencoded written by blast
qed

theorem batch_checks_then_writes_witness:
  "table_of (core (LevelDBBackend DB)) \<lparr>db_table = [([1], [2])], trs = []\<rparr> = Inr [([1], [2])]
   \<and> News (LevelDBBackend DB) sample_codec [] \<lparr>db_table = [([1], [2])], trs = []\<rparr>
     = (Some EmptyBatch, \<lparr>db_table = [([1], [2])], trs = []\<rparr>)
   \<and> News (LevelDBBackend DB) sample_codec [Item [4] (Text [5]), Item [1] (Text [3])]
        \<lparr>db_table = [([1], [2])], trs = []\<rparr>
     = (Some (AlreadyExists [1]), \<lparr>db_table = [([1], [2])], trs = []\<rparr>)
   \<and> Sets (LevelDBBackend DB) sample_codec [Item [1] (Text [3]), Item [4] (Text [5])]
        \<lparr>db_table = [([1], [2])], trs = []\<rparr>
     = (Some (NotFound [4]), \<lparr>db_table = [([1], [2])], trs = []\<rparr>)
   \<and> News (LevelDBBackend DB) sample_codec [Item [4] (Text [5]), Item [6] Chan]
        \<lparr>db_table = [([1], [2])], trs = []\<rparr>
     = (Some (EncodeError ''json: unsupported type: chan int''),
        \<lparr>db_table = [([1], [2])], trs = []\<rparr>)
   \<and> News (LevelDBBackend DB) sample_codec [Item [4] (Text [5]), Item [6] (Text [7])]
        \<lparr>db_table = [([1], [2])], trs = []\<rparr>
     = (None, \<lparr>db_table = [([1], [2]), ([4], [0x7b, 4, 0x3a, 0x22, 5, 0x22, 0x7d]),
                              ([6], [0x7b, 6, 0x3a, 0x22, 7, 0x22, 0x7d])], trs = []\<rparr>)
   \<and> Sets (LevelDBBackend DB) sample_codec [Item [1] (Text [3])]
        \<lparr>db_table = [([1], [2])], trs = []\<rparr>
     = (None, \<lparr>db_table = [([1], [0x7b, 1, 0x3a, 0x22, 3, 0x22, 0x7d])], trs = []\<rparr>)"
  using
    batch_checks_then_writes [where st = "LevelDBBackend DB"
      and w = "\<lparr>db_table = [([1], [2])], trs = []\<rparr>" and t = "[([1], [2])]"
      and cd = sample_codec and vs = "[Item [4] (Text [5]), Item [1] (Text [3])]"]
    batch_checks_then_writes [where st = "LevelDBBackend DB"
      and w = "\<lparr>db_table = [([1], [2])], trs = []\<rparr>" and t = "[([1], [2])]"
      and cd = sample_codec and vs = "[Item [1] (Text [3]), Item [4] (Text [5])]"]
    batch_checks_then_writes [where st = "LevelDBBackend DB"
      and w = "\<lparr>db_table = [([1], [2])], trs = []\<rparr>" and t = "[([1], [2])]"
      and cd = sample_codec and vs = "[Item [4] (Text [5]), Item [6] Chan]"]
    batch_checks_then_writes [where st = "LevelDBBackend DB"
      and w = "\<lparr>db_table = [([1], [2])], trs = []\<rparr>" and t = "[([1], [2])]"
      and cd = sample_codec and vs = "[Item [4] (Text [5]), Item [6] (Text [7])]"]
    batch_checks_then_writes [where st = "LevelDBBackend DB"
      and w = "\<lparr>db_table = [([1], [2])], trs = []\<rparr>" and t = "[([1], [2])]"
      and cd = sample_codec and vs = "[Item [1] (Text [3])]"]
  by (simp add: table_of_def set_table_def sample_codec_def News_def Sets_def Has_def
        core_Has_def core_Write_def makeKey_def)

text \<open>
  C10, as stated, fails in its last part: \<^verbatim>\<open>Get\<close> with a target shaped like the value can
  decode what \<^verbatim>\<open>News\<close> stored, and yield the value. The value is a structure without
  fields, written under the key \<^verbatim>\<open>k\<close> by \<^verbatim>\<open>News\<close>; what is stored is the object of the
  whole item, \<^verbatim>\<open>{"Key":"k","Value":{}}\<close>, and \<^verbatim>\<open>Get\<close> reads the value out of it.
\<close>

theorem Get_after_News_counterexample:
  "News (LevelDBBackend DB) struct_codec [Item [0x6b] EmptyStruct] \<lparr>db_table = [], trs = []\<rparr>
     = (None,
        \<lparr>db_table = [([0x6b], [0x7b, 0x22, 0x4b, 0x65, 0x79, 0x22, 0x3a, 0x22, 0x6b, 0x22, 0x2c,
                              0x22, 0x56, 0x61, 0x6c, 0x75, 0x65, 0x22, 0x3a, 0x7b, 0x7d, 0x7d])],
           trs = []\<rparr>)
   \<and> Get (LevelDBBackend DB) struct_codec [0x6b]
        \<lparr>db_table = [([0x6b], [0x7b, 0x22, 0x4b, 0x65, 0x79, 0x22, 0x3a, 0x22, 0x6b, 0x22, 0x2c,
                              0x22, 0x56, 0x61, 0x6c, 0x75, 0x65, 0x22, 0x3a, 0x7b, 0x7d, 0x7d])],
           trs = []\<rparr>
     = Inr EmptyStruct"
  by (simp add: News_def Get_def GetRaw_def Has_def core_Has_def core_Get_def core_Write_def
        table_of_def set_table_def makeKey_def struct_codec_def json_codec_def Item_object_def)

text \<open>
  C10, amended. With a JSON codec, let the keys of a batch be distinct and every value
  encode, and take one item of the batch, with key \<open>k\<close>, value \<open>v\<close> and encoded value
  \<open>bv\<close>. The generic encoder renders the item as the object \<open>bi\<close> of its key and
  value, which is never \<open>bv\<close>. After \<^verbatim>\<open>News\<close> (all keys absent) or \<^verbatim>\<open>Sets\<close> (all keys
  present) \<^verbatim>\<open>GetRaw\<close> reads \<open>bi\<close> under \<open>k\<close>, and \<^verbatim>\<open>Get\<close> returns what the decoder
  makes of \<open>bi\<close>. For a value without \<^verbatim>\<open>Serialize\<close>, \<^verbatim>\<open>New k v\<close> stores \<open>bv\<close>, so
  \<^verbatim>\<open>GetRaw\<close> after \<^verbatim>\<open>News\<close> and \<^verbatim>\<open>GetRaw\<close> after \<^verbatim>\<open>New\<close> differ.
\<close>

theorem batch_stores_whole_item:
  assumes "table_of (core st) w = Inr t"
    and "cd = json_codec ser encv enck dec"
    and "vs \<noteq> []" and "distinct (map Key vs)"
    and "map (\<lambda>x. encv (Value x)) vs = map Inr bvs"
    and "i < length vs"
    and "k = Key (vs ! i)" and "v = Value (vs ! i)" and "bv = bvs ! i"
    and "bi = Item_object (enck k) bv"
  shows "EncodeJSONValue cd (AnyValue v) = Inr bv
    \<and> EncodeJSONValue cd (AnyItem (vs ! i)) = Inr bi
    \<and> bi \<noteq> bv
    \<and> ((\<forall>x \<in> set vs. map_of t (Key x) = None) \<longrightarrow>
          fst (News st cd vs w) = None
        \<and> GetRaw st k (snd (News st cd vs w)) = Inr bi
        \<and> Get st cd k (snd (News st cd vs w))
            = (case dec bi of Inl m \<Rightarrow> Inl (DecodeError m) | Inr x \<Rightarrow> Inr x)
        \<and> (ser v = None \<longrightarrow>
              fst (New st cd k v w) = None
            \<and> GetRaw st k (snd (New st cd k v w)) = Inr bv
            \<and> GetRaw st k (snd (News st cd vs w)) \<noteq> GetRaw st k (snd (New st cd k v w))))
    \<and> ((\<forall>x \<in> set vs. map_of t (Key x) \<noteq> None) \<longrightarrow>
          fst (Sets st cd vs w) = None
        \<and> GetRaw st k (snd (Sets st cd vs w)) = Inr bi
        \<and> Get st cd k (snd (Sets st cd vs w))
            = (case dec bi of Inl m \<Rightarrow> Inl (DecodeError m) | Inr x \<Rightarrow> Inr x))"
proof -
  let ?bs = "map2 (\<lambda>x b. Item_object (enck (Key x)) b) vs bvs"
  let ?w' = "set_table (core st) (foldl apply_record t (map2 BatchPut (map Key vs) ?bs)) w"
  have len_v: "length bvs = length vs"
    using assms(5) by (metis length_map)
  have items: "map (\<lambda>x. EncodeJSONValue cd (AnyItem x)) vs = map Inr ?bs"
    unfolding assms(2) using assms(5) by (rule json_items_encoded)
  have len: "length ?bs = length vs"
    using len_v by simp
  have bi: "?bs ! i = bi"
    using assms(6,7,9,10) len_v by simp
  have encv: "encv v = Inr bv"
    using assms(5,6,8,9) len_v by (metis nth_map)
  have enc_v: "EncodeJSONValue cd (AnyValue v) = Inr bv"
    using encv by (simp add: assms(2) json_codec_def)
  have enc_i: "EncodeJSONValue cd (AnyItem (vs ! i)) = Inr bi"
    using encv assms(7,8,10) by (simp add: assms(2) json_codec_def)
  have diff: "bi \<noteq> bv"
    unfolding assms(10) by (rule Item_object_not_value)
  have raw: "GetRaw st k ?w' = Inr bi"
    using GetRaw_after_batch [OF assms(1,4) len assms(6)] assms(7) bi by simp
  have dec: "Get st cd k ?w' = (case dec bi of Inl m \<Rightarrow> Inl (DecodeError m) | Inr x \<Rightarrow> Inr x)"
    using raw by (simp add: Get_def assms(2) json_codec_def)
  have filled: "fill_batch cd vs [] = Inr (map2 BatchPut (map Key vs) ?bs)"
    using fill_batch_Inr [OF items, of "[]"] by simp
  have news: "News st cd vs w = (None, ?w')" if "\<forall>x \<in> set vs. map_of t (Key x) = None"
  proof -
    have "find (\<lambda>x. map_of t (Key x) \<noteq> None) vs = None"
      using that by (simp add: find_None_iff)
    then show ?thesis
      by (simp add: News_result [OF assms(1,3)] filled)
  qed
  have sets: "Sets st cd vs w = (None, ?w')" if "\<forall>x \<in> set vs. map_of t (Key x) \<noteq> None"
  proof -
    have "find (\<lambda>x. map_of t (Key x) = None) vs = None"
      using that by (simp add: find_None_iff)
    then show ?thesis
      by (simp add: Sets_result [OF assms(1,3)] filled)
  qed
  have new: "New st cd k v w = (None, set_table (core st) (AList.update k bv t) w)
             \<and> GetRaw st k (set_table (core st) (AList.update k bv t) w) = Inr bv"
    if "map_of t k = None" and "ser v = None"
  proof -
    have "New_encode cd v = Inr bv"
      using that(2) encv by (simp add: New_encode_def assms(2) json_codec_def)
    moreover have "GetRaw st k (set_table (core st) (AList.update k bv t) w) = Inr bv"
      using table_of_set_table [OF assms(1), of "AList.update k bv t"]
      by (simp add: GetRaw_table update_conv')
    ultimately show ?thesis
      using that(1) assms(1) by (simp add: New_def Has_table core_Put_table makeKey_def)
  qed
  have absent: "map_of t k = None" if "\<forall>x \<in> set vs. map_of t (Key x) = None"
    using that assms(6,7) by simp
  have part_news: "fst (News st cd vs w) = None
        \<and> GetRaw st k (snd (News st cd vs w)) = Inr bi
        \<and> Get st cd k (snd (News st cd vs w))
            = (case dec bi of Inl m \<Rightarrow> Inl (DecodeError m) | Inr x \<Rightarrow> Inr x)
        \<and> (ser v = None \<longrightarrow>
              fst (New st cd k v w) = None
            \<and> GetRaw st k (snd (New st cd k v w)) = Inr bv
            \<and> GetRaw st k (snd (News st cd vs w)) \<noteq> GetRaw st k (snd (New st cd k v w)))"
    if a: "\<forall>x \<in> set vs. map_of t (Key x) = None"
    using news [OF a] raw dec new [OF absent [OF a]] diff by simp
  have part_sets: "fst (Sets st cd vs w) = None
        \<and> GetRaw st k (snd (Sets st cd vs w)) = Inr bi
        \<and> Get st cd k (snd (Sets st cd vs w))
            = (case dec bi of Inl m \<Rightarrow> Inl (DecodeError m) | Inr x \<Rightarrow> Inr x)"
    if p: "\<forall>x \<in> set vs. map_of t (Key x) \<noteq> None"
    using sets [OF p] raw dec by simp
  show ?thesis
    using enc_v enc_i diff part_news part_sets by blast
qed

theorem batch_stores_whole_item_witness:
  "table_of (core (LevelDBBackend DB)) \<lparr>db_table = [([1], [2])], trs = []\<rparr> = Inr [([1], [2])]
   \<and> sample_json_codec = json_codec sample_Serialize sample_json json_quote sample_Unmarshal
   \<and> sample_Serialize (Text [5]) = None
   \<and> GetRaw (LevelDBBackend DB) [4]
        (snd (News (LevelDBBackend DB) sample_json_codec [Item [4] (Text [5])]
                \<lparr>db_table = [([1], [2])], trs = []\<rparr>))
     = Inr [0x7b, 0x22, 0x4b, 0x65, 0x79, 0x22, 0x3a, 0x22, 4, 0x22, 0x2c,
            0x22, 0x56, 0x61, 0x6c, 0x75, 0x65, 0x22, 0x3a, 0x22, 5, 0x22, 0x7d]
   \<and> GetRaw (LevelDBBackend DB) [4]
        (snd (New (LevelDBBackend DB) sample_json_codec [4] (Text [5])
                \<lparr>db_table = [([1], [2])], trs = []\<rparr>))
     = Inr [0x22, 5, 0x22]
   \<and> Get (LevelDBBackend DB) sample_json_codec [4]
        (snd (News (LevelDBBackend DB) sample_json_codec [Item [4] (Text [5])]
                \<lparr>db_table = [([1], [2])], trs = []\<rparr>))
     = Inl (DecodeError ''json: cannot unmarshal'')
   \<and> GetRaw (LevelDBBackend DB) [1]
        (snd (Sets (LevelDBBackend DB) sample_json_codec [Item [1] (Text [5])]
                \<lparr>db_table = [([1], [2])], trs = []\<rparr>))
     = Inr [0x7b, 0x22, 0x4b, 0x65, 0x79, 0x22, 0x3a, 0x22, 1, 0x22, 0x2c,
            0x22, 0x56, 0x61, 0x6c, 0x75, 0x65, 0x22, 0x3a, 0x22, 5, 0x22, 0x7d]"
proof -
  have t: "table_of (core (LevelDBBackend DB)) \<lparr>db_table = [([1], [2])], trs = []\<rparr>
           = Inr [([1], [2])]"
    by (simp add: table_of_def)
  have c: "sample_json_codec
           = json_codec sample_Serialize sample_json json_quote sample_Unmarshal"
    by (rule sample_json_codec_def)
  have absent: "\<forall>x \<in> set [Item [4] (Text [5])]. map_of [([1], [2 :: 8 word])] (Key x) = None"
    by simp
  have present: "\<forall>x \<in> set [Item [1] (Text [5])]. map_of [([1], [2 :: 8 word])] (Key x) \<noteq> None"
    by simp
  note created = batch_stores_whole_item [where vs = "[Item [4] (Text [5])]"
      and bvs = "[[0x22, 5, 0x22]]" and i = 0, OF t c _ _ _ _ refl refl refl refl]
    and updated = batch_stores_whole_item [where vs = "[Item [1] (Text [5])]"
      and bvs = "[[0x22, 5, 0x22]]" and i = 0, OF t c _ _ _ _ refl refl refl refl]
  have "GetRaw (LevelDBBackend DB) [4]
        (snd (News (LevelDBBackend DB) sample_json_codec [Item [4] (Text [5])]
                \<lparr>db_table = [([1], [2])], trs = []\<rparr>))
     = Inr [0x7b, 0x22, 0x4b, 0x65, 0x79, 0x22, 0x3a, 0x22, 4, 0x22, 0x2c,
            0x22, 0x56, 0x61, 0x6c, 0x75, 0x65, 0x22, 0x3a, 0x22, 5, 0x22, 0x7d]"
    using created absent by (simp add: Item_object_def)
  moreover have "GetRaw (LevelDBBackend DB) [4]
        (snd (New (LevelDBBackend DB) sample_json_codec [4] (Text [5])
                \<lparr>db_table = [([1], [2])], trs = []\<rparr>))
     = Inr [0x22, 5, 0x22]"
    using created absent by (simp add: Item_object_def)
  moreover have "Get (LevelDBBackend DB) sample_json_codec [4]
        (snd (News (LevelDBBackend DB) sample_json_codec [Item [4] (Text [5])]
                \<lparr>db_table = [([1], [2])], trs = []\<rparr>))
     = Inl (DecodeError ''json: cannot unmarshal'')"
    using created absent by (simp add: Item_object_def)
  moreover have "GetRaw (LevelDBBackend DB) [1]
        (snd (Sets (LevelDBBackend DB) sample_json_codec [Item [1] (Text [5])]
                \<lparr>db_table = [([1], [2])], trs = []\<rparr>))
     = Inr [0x7b, 0x22, 0x4b, 0x65, 0x79, 0x22, 0x3a, 0x22, 1, 0x22, 0x2c,
            0x22, 0x56, 0x61, 0x6c, 0x75, 0x65, 0x22, 0x3a, 0x22, 5, 0x22, 0x7d]"
    using updated present by (simp add: Item_object_def)
  ultimately show ?thesis
    using t c by simp
qed

section \<open>Iterating to the end\<close>

text \<open>
  C5. Let \<open>ys\<close> be the matching records as items, in the order of the iteration. The
  first closure returns the items of \<open>ys\<close> one after another, each with \<open>True\<close>. Every
  later call returns the zero item with \<open>False\<close>, and from the first such call on the
  cursor is released. A reverse iteration over an empty range has released its cursor
  before any call; every other iteration holds its cursor until the call that finds no
  more records.
\<close>

theorem next_until_exhausted:
  assumes "table_of (core st) w = Inr t"
    and "s = GetIterator st pfx reverse w"
    and "ys = (if reverse then numbered 0 (rev (with_prefix pfx t))
               else numbered 1 (with_prefix pfx t))"
  shows "length ys = length (with_prefix pfx t)
    \<and> (\<forall>j < length ys. fst (next_fn (after_calls j s)) = (ys ! j, True))
    \<and> (\<forall>j \<ge> length ys. fst (next_fn (after_calls j s)) = (zero_IterItem, False)
                         \<and> pos (cursor (after_calls (Suc j) s)) = Released)
    \<and> (if reverse \<and> with_prefix pfx t = [] then pos (cursor s) = Released
       else \<forall>j \<le> length ys. pos (cursor (after_calls j s)) \<noteq> Released)"
proof -
  have ys: "drain s = ys"
    using assms by (simp add: drain_GetIterator)
  have len: "length ys = length (with_prefix pfx t)"
    using assms(3) by (simp add: length_numbered)
  have "fst (next_fn (after_calls j s)) = (ys ! j, True)" if "j < length ys" for j
    using calls_while_records [of j s] that ys by simp
  moreover have "fst (next_fn (after_calls j s)) = (zero_IterItem, False)
                 \<and> pos (cursor (after_calls (Suc j) s)) = Released" if "length ys \<le> j" for j
  proof -
    have "proper s"
      using assms(2) by (simp add: proper_GetIterator)
    then have "fst (next_fn (after_calls j s)) = (zero_IterItem, False)
               \<and> spent (after_calls (Suc j) s)"
      using that ys by (intro calls_after_records) simp_all
    then show ?thesis
      using spent_released by blast
  qed
  moreover have "pos (cursor s) = Released" if "reverse \<and> with_prefix pfx t = []"
    using that held_GetIterator [OF assms(1), of pfx reverse] assms(2) by simp
  moreover have "pos (cursor (after_calls j s)) \<noteq> Released"
    if "\<not> (reverse \<and> with_prefix pfx t = [])" and "j \<le> length ys" for j
  proof -
    have "pos (cursor s) \<noteq> Released"
      using that(1) held_GetIterator [OF assms(1), of pfx reverse] assms(2) by simp
    then show ?thesis
      using that(2) ys by (intro held_while_records) simp_all
  qed
  ultimately show ?thesis
    using len by simp
qed

theorem next_until_exhausted_witness:
  "table_of (core (LevelDBBackend DB)) \<lparr>db_table = [([2], [5]), ([1], [7])], trs = []\<rparr>
     = Inr [([2], [5]), ([1], [7])]
   \<and> fst (next_fn (after_calls 0
        (GetIterator (LevelDBBackend DB) [] True
           \<lparr>db_table = [([2], [5]), ([1], [7])], trs = []\<rparr>)))
     = (\<lparr>N = 0, IterKey = [2], IterValue = [5]\<rparr>, True)
   \<and> fst (next_fn (after_calls 1
        (GetIterator (LevelDBBackend DB) [] True
           \<lparr>db_table = [([2], [5]), ([1], [7])], trs = []\<rparr>)))
     = (\<lparr>N = 1, IterKey = [1], IterValue = [7]\<rparr>, True)
   \<and> fst (next_fn (after_calls 2
        (GetIterator (LevelDBBackend DB) [] True
           \<lparr>db_table = [([2], [5]), ([1], [7])], trs = []\<rparr>)))
     = (zero_IterItem, False)
   \<and> pos (cursor (after_calls 2
        (GetIterator (LevelDBBackend DB) [] True
           \<lparr>db_table = [([2], [5]), ([1], [7])], trs = []\<rparr>))) \<noteq> Released
   \<and> pos (cursor (after_calls 3
        (GetIterator (LevelDBBackend DB) [] True
           \<lparr>db_table = [([2], [5]), ([1], [7])], trs = []\<rparr>))) = Released
   \<and> pos (cursor (GetIterator (LevelDBBackend DB) [3] True
        \<lparr>db_table = [([2], [5]), ([1], [7])], trs = []\<rparr>)) = Released
   \<and> fst (next_fn (GetIterator (LevelDBBackend DB) [3] True
        \<lparr>db_table = [([2], [5]), ([1], [7])], trs = []\<rparr>)) = (zero_IterItem, False)"
proof -
  have t: "table_of (core (LevelDBBackend DB))
             \<lparr>db_table = [([2], [5]), ([1], [7])], trs = []\<rparr> = Inr [([2], [5]), ([1], [7])]"
    by (simp add: table_of_def)
  have all: "with_prefix [] [([2], [5]), ([1], [7 :: 8 word])] = [([1], [7]), ([2 :: 8 word], [5])]"
    by (simp add: with_prefix_def)
  have none: "with_prefix [3] [([2], [5]), ([1], [7 :: 8 word])] = []"
    by (simp add: with_prefix_def)
  note full = next_until_exhausted [where pfx = "[]" and reverse = True, OF t refl refl,
      unfolded all]
    and empty = next_until_exhausted [where pfx = "[3]" and reverse = True, OF t refl refl,
      unfolded none]
  note records = full [THEN conjunct2, THEN conjunct1, rule_format]
    and later = full [THEN conjunct2, THEN conjunct2, THEN conjunct1, rule_format]
    and held = full [THEN conjunct2, THEN conjunct2, THEN conjunct2, simplified, rule_format]
    and eager = empty [THEN conjunct2, THEN conjunct2, THEN conjunct2]
    and at_once = empty [THEN conjunct2, THEN conjunct2, THEN conjunct1, rule_format]
  have "fst (next_fn (after_calls 0
        (GetIterator (LevelDBBackend DB) [] True
           \<lparr>db_table = [([2], [5]), ([1], [7])], trs = []\<rparr>)))
     = (\<lparr>N = 0, IterKey = [2], IterValue = [5]\<rparr>, True)"
    using records [of 0] by simp
  moreover have "fst (next_fn (after_calls 1
        (GetIterator (LevelDBBackend DB) [] True
           \<lparr>db_table = [([2], [5]), ([1], [7])], trs = []\<rparr>)))
     = (\<lparr>N = 1, IterKey = [1], IterValue = [7]\<rparr>, True)"
    using records [of 1] by simp
  moreover have "fst (next_fn (after_calls 2
        (GetIterator (LevelDBBackend DB) [] True
           \<lparr>db_table = [([2], [5]), ([1], [7])], trs = []\<rparr>)))
     = (zero_IterItem, False)"
    using later [of 2] by simp
  moreover have "pos (cursor (after_calls 2
        (GetIterator (LevelDBBackend DB) [] True
           \<lparr>db_table = [([2], [5]), ([1], [7])], trs = []\<rparr>))) \<noteq> Released"
    using held [of 2] by simp
  moreover have "pos (cursor (after_calls 3
        (GetIterator (LevelDBBackend DB) [] True
           \<lparr>db_table = [([2], [5]), ([1], [7])], trs = []\<rparr>))) = Released"
    using later [of 2] by (simp add: numeral_3_eq_3)
  moreover have "pos (cursor (GetIterator (LevelDBBackend DB) [3] True
        \<lparr>db_table = [([2], [5]), ([1], [7])], trs = []\<rparr>)) = Released"
    using eager by simp
  moreover have "fst (next_fn (GetIterator (LevelDBBackend DB) [3] True
        \<lparr>db_table = [([2], [5]), ([1], [7])], trs = []\<rparr>)) = (zero_IterItem, False)"
    using at_once [of 0] by simp
  ultimately show ?thesis
    using t by simp
qed

text \<open>
  C6. Distinct keys are inserted into an empty store with \<^verbatim>\<open>New\<close>, each with a value
  that encodes. Then every insertion succeeds, and an iteration to the end yields
  the keys that have the prefix: in ascending order of bytes when \<open>reverse\<close> is false,
  in descending order when it is true. With the empty prefix these are all the keys, as
  many items as keys were inserted.
\<close>

theorem iteration_after_inserts:
  assumes "table_of (core st) w = Inr []"
    and "distinct (map fst kvs)"
    and "\<forall>kv \<in> set kvs. \<exists>b. New_encode cd (snd kv) = Inr b"
    and "w' = snd (New_all st cd kvs w)"
  shows "fst (New_all st cd kvs w) = None
    \<and> map IterKey (drain (GetIterator st pfx False w'))
        = sort (filter (prefix pfx) (map fst kvs))
    \<and> map IterKey (drain (GetIterator st pfx True w'))
        = rev (sort (filter (prefix pfx) (map fst kvs)))
    \<and> sorted_wrt (<) (sort (filter (prefix pfx) (map fst kvs)))
    \<and> length (drain (GetIterator st [] False w')) = length kvs
    \<and> length (drain (GetIterator st [] True w')) = length kvs"
proof -
  obtain w1 t' where ins: "New_all st cd kvs w = (None, w1)"
    and tab: "table_of (core st) w1 = Inr t'"
    and dist: "distinct (map fst t')"
    and keys: "set (map fst t') = set (map fst []) \<union> set (map fst kvs)"
    using New_all_table [OF assms(1) _ assms(2) _ assms(3)] by auto
  have w': "w' = w1"
    using assms(4) ins by simp
  have same: "sort (filter (prefix p) (map fst t')) = sort (filter (prefix p) (map fst kvs))"
    for p
    using dist assms(2) keys by (intro sort_same_keys) simp_all
  have fwd: "map IterKey (drain (GetIterator st p False w'))
             = sort (filter (prefix p) (map fst kvs))" for p
    using drain_GetIterator [OF tab, of p False] dist
    by (simp add: w' keys_numbered keys_with_prefix same)
  have bwd: "map IterKey (drain (GetIterator st p True w'))
             = rev (sort (filter (prefix p) (map fst kvs)))" for p
  proof -
    have "map fst (rev (with_prefix p t')) = rev (map fst (with_prefix p t'))"
      by (rule rev_map [symmetric])
    then show ?thesis
      using drain_GetIterator [OF tab, of p True] dist
      by (simp add: w' keys_numbered keys_with_prefix same)
  qed
  have "length (drain (GetIterator st [] False w'))
        = length (map IterKey (drain (GetIterator st [] False w')))"
    by simp
  also have "\<dots> = length kvs"
    by (simp only: fwd) simp
  finally have len_fwd: "length (drain (GetIterator st [] False w')) = length kvs" .
  have "length (drain (GetIterator st [] True w'))
        = length (map IterKey (drain (GetIterator st [] True w')))"
    by simp
  also have "\<dots> = length kvs"
    by (simp only: bwd) simp
  finally have len_bwd: "length (drain (GetIterator st [] True w')) = length kvs" .
  have "sorted_wrt (<) (sort (filter (prefix pfx) (map fst kvs)))"
    using assms(2) by (simp add: strict_sorted_iff)
  then show ?thesis
    using ins fwd bwd len_fwd len_bwd by simp
qed

theorem iteration_after_inserts_witness:
  "table_of (core (LevelDBBackend DB)) \<lparr>db_table = [], trs = []\<rparr> = Inr []
   \<and> distinct (map fst users_example)
   \<and> fst (New_all (LevelDBBackend DB) sample_codec users_example \<lparr>db_table = [], trs = []\<rparr>)
     = None
   \<and> map IterKey (drain (GetIterator (LevelDBBackend DB) user_prefix False
        (snd (New_all (LevelDBBackend DB) sample_codec users_example
                \<lparr>db_table = [], trs = []\<rparr>))))
     = [[0x75, 0x73, 0x65, 0x72, 0x3a, 0x31], [0x75, 0x73, 0x65, 0x72, 0x3a, 0x32]]
   \<and> map IterKey (drain (GetIterator (LevelDBBackend DB) user_prefix True
        (snd (New_all (LevelDBBackend DB) sample_codec users_example
                \<lparr>db_table = [], trs = []\<rparr>))))
     = [[0x75, 0x73, 0x65, 0x72, 0x3a, 0x32], [0x75, 0x73, 0x65, 0x72, 0x3a, 0x31]]
   \<and> map IterKey (drain (GetIterator (LevelDBBackend DB) [] False
        (snd (New_all (LevelDBBackend DB) sample_codec users_example
                \<lparr>db_table = [], trs = []\<rparr>))))
     = [[0x6f, 0x74, 0x68, 0x65, 0x72, 0x3a, 0x31], [0x75, 0x73, 0x65, 0x72, 0x3a, 0x31],
        [0x75, 0x73, 0x65, 0x72, 0x3a, 0x32]]
   \<and> length (drain (GetIterator (LevelDBBackend DB) [] True
        (snd (New_all (LevelDBBackend DB) sample_codec users_example
                \<lparr>db_table = [], trs = []\<rparr>)))) = 3"
proof -
  have t: "table_of (core (LevelDBBackend DB)) \<lparr>db_table = [], trs = []\<rparr> = Inr []"
    by (simp add: table_of_def)
  have d: "distinct (map fst users_example)"
    by (simp add: users_example_def)
  have e: "\<forall>kv \<in> set users_example. \<exists>b. New_encode sample_codec (snd kv) = Inr b"
    by (simp add: users_example_def New_encode_def sample_codec_def)
  note with_users = iteration_after_inserts [where pfx = user_prefix, OF t d e refl]
    and with_all = iteration_after_inserts [where pfx = "[]", OF t d e refl]
  have "map IterKey (drain (GetIterator (LevelDBBackend DB) user_prefix False
        (snd (New_all (LevelDBBackend DB) sample_codec users_example
                \<lparr>db_table = [], trs = []\<rparr>))))
     = [[0x75, 0x73, 0x65, 0x72, 0x3a, 0x31], [0x75, 0x73, 0x65, 0x72, 0x3a, 0x32]]"
    using with_users by (simp add: users_example_def user_prefix_def)
  moreover have "map IterKey (drain (GetIterator (LevelDBBackend DB) user_prefix True
        (snd (New_all (LevelDBBackend DB) sample_codec users_example
                \<lparr>db_table = [], trs = []\<rparr>))))
     = [[0x75, 0x73, 0x65, 0x72, 0x3a, 0x32], [0x75, 0x73, 0x65, 0x72, 0x3a, 0x31]]"
    using with_users by (simp add: users_example_def user_prefix_def)
  moreover have "map IterKey (drain (GetIterator (LevelDBBackend DB) [] False
        (snd (New_all (LevelDBBackend DB) sample_codec users_example
                \<lparr>db_table = [], trs = []\<rparr>))))
     = [[0x6f, 0x74, 0x68, 0x65, 0x72, 0x3a, 0x31], [0x75, 0x73, 0x65, 0x72, 0x3a, 0x31],
        [0x75, 0x73, 0x65, 0x72, 0x3a, 0x32]]"
    using with_all by (simp add: users_example_def)
  moreover have "length (drain (GetIterator (LevelDBBackend DB) [] True
        (snd (New_all (LevelDBBackend DB) sample_codec users_example
                \<lparr>db_table = [], trs = []\<rparr>)))) = 3"
    using with_all by (simp add: users_example_def)
  moreover have "fst (New_all (LevelDBBackend DB) sample_codec users_example
                        \<lparr>db_table = [], trs = []\<rparr>) = None"
    using with_all by simp
  ultimately show ?thesis
    using t d by simp
qed

text \<open>
  C7. The sequence values of a forward iteration are 1, 2, ..., those of a reverse
  iteration 0, 1, ...: the first record of a forward iteration carries 1, the first of
  a reverse iteration 0. As 64-bit signed values they increase strictly (the records of
  a session number fewer than \<open>2 ^ 63\<close>).
\<close>

theorem sequence_numbers:
  assumes "table_of (core st) w = Inr t"
    and "n = length (with_prefix pfx t)" and "n < 2 ^ 63"
  shows "map N (drain (GetIterator st pfx False w)) = map of_nat [1..<Suc n]
    \<and> map N (drain (GetIterator st pfx True w)) = map of_nat [0..<n]
    \<and> sorted_wrt (\<lambda>a b. sint (N a) < sint (N b)) (drain (GetIterator st pfx reverse w))
    \<and> (0 < n \<longrightarrow> N (hd (drain (GetIterator st pfx False w))) = 1
               \<and> N (hd (drain (GetIterator st pfx True w))) = 0)"
proof -
  have fwd: "drain (GetIterator st pfx False w) = numbered 1 (with_prefix pfx t)"
    using drain_GetIterator [OF assms(1), of pfx False] by simp
  have bwd: "drain (GetIterator st pfx True w) = numbered 0 (rev (with_prefix pfx t))"
    using drain_GetIterator [OF assms(1), of pfx True] by simp
  have "map (\<lambda>i. 1 + of_nat i) [0..<n] = map (of_nat :: nat \<Rightarrow> 64 word) (map Suc [0..<n])"
    by simp
  also have "\<dots> = map of_nat [1..<Suc n]"
    by (simp only: map_Suc_upt) simp
  finally have "map N (drain (GetIterator st pfx False w)) = map of_nat [1..<Suc n]"
    using assms(2) by (simp add: fwd Ns_numbered)
  moreover have "map N (drain (GetIterator st pfx True w)) = map of_nat [0..<n]"
    using assms(2) by (simp add: bwd Ns_numbered)
  moreover have "sorted_wrt (\<lambda>a b. sint (N a) < sint (N b))
                   (drain (GetIterator st pfx reverse w))"
  proof (cases reverse)
    case True
    have "sorted_wrt (\<lambda>a b. sint (N a) < sint (N b))
            (numbered (of_nat 0) (rev (with_prefix pfx t)))"
      using assms(2,3) by (intro numbered_increasing) simp_all
    then show ?thesis
      using True by (simp add: bwd)
  next
    case False
    have "sorted_wrt (\<lambda>a b. sint (N a) < sint (N b))
            (numbered (of_nat 1) (with_prefix pfx t))"
      using assms(2,3) by (intro numbered_increasing) simp_all
    then show ?thesis
      using False by (simp add: fwd)
  qed
  moreover have "N (hd (drain (GetIterator st pfx False w))) = 1
                 \<and> N (hd (drain (GetIterator st pfx True w))) = 0" if some: "0 < n"
  proof -
    obtain r rs where f: "with_prefix pfx t = r # rs"
      using some assms(2) by (cases "with_prefix pfx t") auto
    have "rev (with_prefix pfx t) \<noteq> []"
      using f by simp
    then obtain r' rs' where b: "rev (with_prefix pfx t) = r' # rs'"
      by (cases "rev (with_prefix pfx t)") auto
    have "N (hd (numbered 1 (with_prefix pfx t))) = 1"
      by (simp add: f)
    moreover have "N (hd (numbered 0 (rev (with_prefix pfx t)))) = 0"
      by (simp only: b) simp
    ultimately show ?thesis
      by (simp only: fwd bwd)
  qed
  ultimately show ?thesis
    by simp
qed

theorem sequence_numbers_witness:
  "table_of (core (LevelDBBackend DB)) \<lparr>db_table = [([2], [5]), ([1], [7])], trs = []\<rparr>
     = Inr [([2], [5]), ([1], [7])]
   \<and> length (with_prefix [] [([2], [5]), ([1], [7 :: 8 word])]) = 2
   \<and> (2 :: nat) < 2 ^ 63
   \<and> map N (drain (GetIterator (LevelDBBackend DB) [] False
        \<lparr>db_table = [([2], [5]), ([1], [7])], trs = []\<rparr>)) = [1, 2]
   \<and> map N (drain (GetIterator (LevelDBBackend DB) [] True
        \<lparr>db_table = [([2], [5]), ([1], [7])], trs = []\<rparr>)) = [0, 1]
   \<and> N (hd (drain (GetIterator (LevelDBBackend DB) [] False
        \<lparr>db_table = [([2], [5]), ([1], [7])], trs = []\<rparr>))) = 1
   \<and> N (hd (drain (GetIterator (LevelDBBackend DB) [] True
        \<lparr>db_table = [([2], [5]), ([1], [7])], trs = []\<rparr>))) = 0"
proof -
  have t: "table_of (core (LevelDBBackend DB))
             \<lparr>db_table = [([2], [5]), ([1], [7])], trs = []\<rparr> = Inr [([2], [5]), ([1], [7])]"
    by (simp add: table_of_def)
  have n: "2 = length (with_prefix [] [([2], [5]), ([1], [7 :: 8 word])])"
    by (simp add: with_prefix_def)
  have b: "(2 :: nat) < 2 ^ 63"
    by simp
  note s = sequence_numbers [where pfx = "[]", OF t n b]
  have "map N (drain (GetIterator (LevelDBBackend DB) [] False
        \<lparr>db_table = [([2], [5]), ([1], [7])], trs = []\<rparr>)) = [1, 2]"
    using s by (simp add: upt_rec)
  moreover have "map N (drain (GetIterator (LevelDBBackend DB) [] True
        \<lparr>db_table = [([2], [5]), ([1], [7])], trs = []\<rparr>)) = [0, 1]"
    using s by (simp add: upt_rec)
  moreover have "N (hd (drain (GetIterator (LevelDBBackend DB) [] False
        \<lparr>db_table = [([2], [5]), ([1], [7])], trs = []\<rparr>))) = 1"
    using s by simp
  moreover have "N (hd (drain (GetIterator (LevelDBBackend DB) [] True
        \<lparr>db_table = [([2], [5]), ([1], [7])], trs = []\<rparr>))) = 0"
    using s by simp
  ultimately show ?thesis
    using t n b by simp
qed

end
